theory Spec2Isabelle
  imports Main
begin

section \<open>The key-value store\<close>

text \<open>
  The queue of \<^verbatim>\<open>blog.mdx\<close> (files \<^verbatim>\<open>job.ts\<close>, \<^verbatim>\<open>queue.ts\<close>, \<^verbatim>\<open>utils.ts\<close> and the two
  Lua scripts) keeps all of its state in Redis. The store is a record of three keyspaces,
  one for each kind of value the queue uses: hashes, lists and sets. A key that holds
  nothing is the empty hash, the empty list or the empty set, as in Redis, where an
  aggregate that becomes empty is deleted. Every command runs atomically, and so does a
  Lua script and a \<^verbatim>\<open>MULTI\<close>/\<open>EXEC\<close> block: each is one function from store to store.

  The head of a list is its left end: \<^verbatim>\<open>LPUSH\<close> conses, \<^verbatim>\<open>BRPOPLPUSH\<close> takes the last
  element.
\<close>

datatype JobStatuses = created | waiting | active | succeeded | failed

text \<open>
  A serialized job is the JSON text of \<^verbatim>\<open>{data, status}\<close>. It is represented by the
  object that the text encodes, for payloads that JSON carries unchanged.
\<close>

datatype 'a json = JSON_object (json_data: 'a) (json_status: JobStatuses)

record 'a Redis =
  hashes :: "string \<Rightarrow> (string \<rightharpoonup> 'a json)"
  lists :: "string \<Rightarrow> string list"
  sets :: "string \<Rightarrow> string set"

definition empty_redis :: "'a Redis" where
  "empty_redis = \<lparr>hashes = (\<lambda>k. Map.empty), lists = (\<lambda>k. []), sets = (\<lambda>k. {})\<rparr>"

definition hexists :: "'a Redis \<Rightarrow> string \<Rightarrow> string \<Rightarrow> int" where
  "hexists r k f = (case hashes r k f of None \<Rightarrow> 0 | Some v \<Rightarrow> 1)"

definition hget :: "'a Redis \<Rightarrow> string \<Rightarrow> string \<Rightarrow> 'a json option" where
  "hget r k f = hashes r k f"

definition hset :: "string \<Rightarrow> string \<Rightarrow> 'a json \<Rightarrow> 'a Redis \<Rightarrow> 'a Redis" where
  "hset k f v r = r\<lparr>hashes := (hashes r)(k := (hashes r k)(f \<mapsto> v))\<rparr>"

definition hdel :: "string \<Rightarrow> string \<Rightarrow> 'a Redis \<Rightarrow> 'a Redis" where
  "hdel k f r = r\<lparr>hashes := (hashes r)(k := (hashes r k)(f := None))\<rparr>"

definition lpush :: "string \<Rightarrow> string \<Rightarrow> 'a Redis \<Rightarrow> 'a Redis" where
  "lpush k v r = r\<lparr>lists := (lists r)(k := v # lists r k)\<rparr>"

text \<open>\<^verbatim>\<open>LREM key count v\<close>: all occurrences when the count is 0, the first \<open>count\<close> from the
  head when it is positive, the last \<open>-count\<close> when it is negative.\<close>

fun remove_first :: "nat \<Rightarrow> 'b \<Rightarrow> 'b list \<Rightarrow> 'b list" where
  "remove_first 0 v xs = xs"
| "remove_first (Suc n) v [] = []"
| "remove_first (Suc n) v (x # xs) =
     (if x = v then remove_first n v xs else x # remove_first (Suc n) v xs)"

definition lrem :: "string \<Rightarrow> int \<Rightarrow> string \<Rightarrow> 'a Redis \<Rightarrow> 'a Redis" where
  "lrem k count v r =
     r\<lparr>lists := (lists r)(k :=
        (if count = 0 then filter (\<lambda>x. x \<noteq> v) (lists r k)
         else if 0 < count then remove_first (nat count) v (lists r k)
         else rev (remove_first (nat (- count)) v (rev (lists r k)))))\<rparr>"

text \<open>\<^verbatim>\<open>BRPOPLPUSH src dst 0\<close> blocks for as long as the source list is empty: \<open>None\<close>.\<close>

definition brpoplpush :: "string \<Rightarrow> string \<Rightarrow> 'a Redis \<Rightarrow> (string \<times> 'a Redis) option" where
  "brpoplpush src dst r =
     (case rev (lists r src) of
        [] \<Rightarrow> None
      | v # rest \<Rightarrow>
          (let popped = (lists r)(src := rev rest)
           in Some (v, r\<lparr>lists := popped(dst := v # popped dst)\<rparr>)))"

definition sismember :: "'a Redis \<Rightarrow> string \<Rightarrow> string \<Rightarrow> int" where
  "sismember r k v = (if v \<in> sets r k then 1 else 0)"

definition sadd :: "string \<Rightarrow> string \<Rightarrow> 'a Redis \<Rightarrow> 'a Redis" where
  "sadd k v r = r\<lparr>sets := (sets r)(k := insert v (sets r k))\<rparr>"

definition srem :: "string \<Rightarrow> string \<Rightarrow> 'a Redis \<Rightarrow> 'a Redis" where
  "srem k v r = r\<lparr>sets := (sets r)(k := sets r k - {v})\<rparr>"

definition key_exists :: "'a Redis \<Rightarrow> string \<Rightarrow> bool" where
  "key_exists r k \<longleftrightarrow> dom (hashes r k) \<noteq> {} \<or> lists r k \<noteq> [] \<or> sets r k \<noteq> {}"

definition del1 :: "string \<Rightarrow> 'a Redis \<Rightarrow> 'a Redis" where
  "del1 k r = \<lparr>hashes = (hashes r)(k := Map.empty), lists = (lists r)(k := []),
              sets = (sets r)(k := {})\<rparr>"

text \<open>\<^verbatim>\<open>DEL k1 ... kn\<close> replies with the number of keys it removed.\<close>

fun del :: "string list \<Rightarrow> 'a Redis \<Rightarrow> nat \<times> 'a Redis" where
  "del [] r = (0, r)"
| "del (k # ks) r =
     (let (n, r') = del ks (del1 k r)
      in ((if key_exists r k then 1 else 0) + n, r'))"

text \<open>A \<^verbatim>\<open>MULTI\<close> block queues commands; \<^verbatim>\<open>EXEC\<close> runs them in order, as one step.\<close>

datatype 'a command =
    LREM string int string
  | HSET string string "'a json"
  | HDEL string string
  | SADD string string

fun run_command :: "'a Redis \<Rightarrow> 'a command \<Rightarrow> 'a Redis" where
  "run_command r (LREM k count v) = lrem k count v r"
| "run_command r (HSET k f v) = hset k f v r"
| "run_command r (HDEL k f) = hdel k f r"
| "run_command r (SADD k v) = sadd k v r"

definition exec :: "'a command list \<Rightarrow> 'a Redis \<Rightarrow> 'a Redis" where
  "exec multi r = foldl run_command r multi"

section \<open>utils.ts\<close>

definition MQ_PREFIX :: string where
  "MQ_PREFIX = ''UpstashMQ''"

definition formatMessageQueueKey :: "string \<Rightarrow> string \<Rightarrow> string" where
  "formatMessageQueueKey queueName key = MQ_PREFIX @ '':'' @ queueName @ '':'' @ key"

definition convertToJSONString :: "'a \<Rightarrow> JobStatuses \<Rightarrow> 'a json" where
  "convertToJSONString d s = JSON_object d s"

section \<open>job.ts and add-job.lua\<close>

record OwnerQueue =
  queueName :: string

record 'a Job =
  id' :: string
  status :: JobStatuses
  config :: OwnerQueue
  data :: 'a

text \<open>The constructor. The default of \<^verbatim>\<open>jobId\<close>, \<^verbatim>\<open>randomUUID()\<close>, is drawn by the caller
  (see \<open>add\<close>).\<close>

definition Job_new :: "OwnerQueue \<Rightarrow> 'a \<Rightarrow> string \<Rightarrow> 'a Job" where
  "Job_new ownerConfig d jobId = \<lparr>id' = jobId, status = created, config = ownerConfig, data = d\<rparr>"

definition createQueueKey :: "OwnerQueue \<Rightarrow> string \<Rightarrow> string" where
  "createQueueKey cfg key = formatMessageQueueKey (queueName cfg) key"

text \<open>\<^verbatim>\<open>add-job.lua\<close>, with \<^verbatim>\<open>KEYS[1]\<close>, \<^verbatim>\<open>KEYS[2]\<close>, \<^verbatim>\<open>ARGV[1]\<close>, \<^verbatim>\<open>ARGV[2]\<close>. The reply \<open>None\<close>
  is Lua's \<^verbatim>\<open>nil\<close>.\<close>

definition add_job_lua ::
  "string \<Rightarrow> string \<Rightarrow> string \<Rightarrow> 'a json \<Rightarrow> 'a Redis \<Rightarrow> string option \<times> 'a Redis" where
  "add_job_lua key1 key2 jobId payload r =
     (if hexists r key1 jobId = 1 then (None, r)
      else (Some jobId, lpush key2 jobId (hset key1 jobId payload r)))"

text \<open>JavaScript's test \<^verbatim>\<open>if (resJobId)\<close>: \<^verbatim>\<open>null\<close> and the empty string are falsy.\<close>

definition truthy :: "string option \<Rightarrow> bool" where
  "truthy v = (case v of None \<Rightarrow> False | Some s \<Rightarrow> s \<noteq> [])"

text \<open>\<^verbatim>\<open>Job.save\<close> returns its result, the job (whose \<open>id\<close> it may assign) and the store.\<close>

definition save :: "'a Job \<Rightarrow> 'a Redis \<Rightarrow> string option \<times> 'a Job \<times> 'a Redis" where
  "save this r =
     (let (resJobId, r') =
            add_job_lua (createQueueKey (config this) ''jobs'')
              (createQueueKey (config this) ''waiting'')
              (id' this) (convertToJSONString (data this) (status this)) r
      in if truthy resJobId then (resJobId, this\<lparr>id' := the resJobId\<rparr>, r')
         else (None, this, r'))"

definition fromData :: "OwnerQueue \<Rightarrow> string \<Rightarrow> 'a json \<Rightarrow> 'a Job" where
  "fromData cfg jobId stringifiedJobData =
     (let job = Job_new cfg (json_data stringifiedJobData) jobId
      in job\<lparr>status := json_status stringifiedJobData\<rparr>)"

text \<open>\<^verbatim>\<open>fromId\<close> reads only the \<open>config\<close> of its receiver. A serialized job is never the
  empty string, so \<^verbatim>\<open>if (jobData)\<close> tests for \<^verbatim>\<open>null\<close>.\<close>

definition fromId :: "OwnerQueue \<Rightarrow> 'a Redis \<Rightarrow> string \<Rightarrow> 'a Job option" where
  "fromId cfg r jobId =
     (case hget r (createQueueKey cfg ''jobs'') jobId of
        Some jobData \<Rightarrow> Some (fromData cfg jobId jobData)
      | None \<Rightarrow> None)"

section \<open>queue.ts and remove-job.lua\<close>

record QueueConfig = OwnerQueue +
  keepOnSuccess :: bool
  keepOnFailure :: bool

text \<open>A worker either returns or throws.\<close>

datatype outcome = Returned | Raised

record 'a Queue =
  Queue_config :: QueueConfig
  concurrency :: int
  worker :: "('a \<Rightarrow> outcome) option"
  running :: int
  queued :: int

text \<open>The constructor: \<^verbatim>\<open>keepOnFailure ?? true\<close>, \<^verbatim>\<open>keepOnSuccess ?? true\<close>; the field
  \<^verbatim>\<open>worker\<close> is not assigned before \<^verbatim>\<open>process\<close>.\<close>

definition Queue_new :: "string \<Rightarrow> bool option \<Rightarrow> bool option \<Rightarrow> 'a Queue" where
  "Queue_new name keepS keepF =
     \<lparr>Queue_config = \<lparr>queueName = name,
                       keepOnSuccess = (case keepS of None \<Rightarrow> True | Some b \<Rightarrow> b),
                       keepOnFailure = (case keepF of None \<Rightarrow> True | Some b \<Rightarrow> b)\<rparr>,
      concurrency = 0, worker = None, running = 0, queued = 0\<rparr>"

text \<open>The queue hands its own \<^verbatim>\<open>config\<close> object to the jobs it builds; a job reads the
  queue name of it.\<close>

definition owner :: "QueueConfig \<Rightarrow> OwnerQueue" where
  "owner cfg = \<lparr>queueName = queueName cfg\<rparr>"

definition Queue_createQueueKey :: "QueueConfig \<Rightarrow> string \<Rightarrow> string" where
  "Queue_createQueueKey cfg key = formatMessageQueueKey (queueName cfg) key"

text \<open>\<^verbatim>\<open>add\<close>: the argument \<open>uuid\<close> is the value that \<^verbatim>\<open>randomUUID()\<close> draws in the
  constructor of the job.\<close>

definition add :: "QueueConfig \<Rightarrow> 'a \<Rightarrow> string \<Rightarrow> 'a Redis \<Rightarrow> string option \<times> 'a Redis" where
  "add cfg payload uuid r =
     (let (res, job, r') = save (Job_new (owner cfg) payload uuid) r in (res, r'))"

definition getNextJob :: "QueueConfig \<Rightarrow> 'a Redis \<Rightarrow> (string \<times> 'a Redis) option" where
  "getNextJob cfg r =
     brpoplpush (Queue_createQueueKey cfg ''waiting'') (Queue_createQueueKey cfg ''active'') r"

text \<open>What a run does besides changing the store and the counters, in the order in which
  it does it: a call of the worker, a committed transaction, an emitted event, a line on
  the error console, a further chain of ticks scheduled with \<^verbatim>\<open>setImmediate\<close>.\<close>

datatype 'a effect =
    WorkerCall 'a
  | MultiExec "'a command list"
  | Emit JobStatuses string
  | ConsoleError string
  | SetImmediate

text \<open>\<^verbatim>\<open>finishJob\<close>: the arguments of the queued commands are evaluated when they are
  queued, before \<^verbatim>\<open>job.status\<close> is assigned.\<close>

definition finishJob ::
  "QueueConfig \<Rightarrow> 'a Job \<Rightarrow> bool \<Rightarrow> 'a Redis
     \<Rightarrow> (JobStatuses \<times> 'a Job) \<times> 'a Redis \<times> 'a effect list" where
  "finishJob cfg job hasFailed r =
     (let multi0 = [LREM (Queue_createQueueKey cfg ''active'') 0 (id' job)];
          (multi, job') =
            (if hasFailed then
               ((if keepOnFailure cfg then
                   multi0 @ [HSET (Queue_createQueueKey cfg ''jobs'') (id' job)
                               (convertToJSONString (data job) (status job)),
                             SADD (Queue_createQueueKey cfg ''failed'') (id' job)]
                 else multi0 @ [HDEL (Queue_createQueueKey cfg ''jobs'') (id' job)]),
                job\<lparr>status := failed\<rparr>)
             else
               ((if keepOnSuccess cfg then
                   multi0 @ [HSET (Queue_createQueueKey cfg ''jobs'') (id' job)
                               (convertToJSONString (data job) (status job)),
                             SADD (Queue_createQueueKey cfg ''succeeded'') (id' job)]
                 else multi0 @ [HDEL (Queue_createQueueKey cfg ''jobs'') (id' job)]),
                job\<lparr>status := succeeded\<rparr>))
      in ((status job', job'), exec multi r, [MultiExec multi]))"

text \<open>\<^verbatim>\<open>this.worker(d)\<close>: calling a worker that was never assigned throws, inside the
  \<^verbatim>\<open>try\<close> of \<^verbatim>\<open>executeJob\<close>, like a worker that throws.\<close>

definition call_worker :: "'a Queue \<Rightarrow> 'a \<Rightarrow> outcome" where
  "call_worker this d = (case worker this of None \<Rightarrow> Raised | Some w \<Rightarrow> w d)"

definition executeJob ::
  "'a Queue \<Rightarrow> 'a Job \<Rightarrow> 'a Redis \<Rightarrow> 'a Queue \<times> 'a Redis \<times> 'a effect list" where
  "executeJob this jobCreatedById r =
     (let result = call_worker this (data jobCreatedById);
          hasError = (result = Raised);
          this' = (if hasError then this
                   else this\<lparr>running := running this - 1, queued := queued this + 1\<rparr>);
          ((jobStatus, job), r', fx) = finishJob (Queue_config this) jobCreatedById hasError r
      in (this', r', WorkerCall (data jobCreatedById) # fx @ [Emit jobStatus (id' job)]))"

text \<open>One \<^verbatim>\<open>jobTick\<close>, up to the point where its \<^verbatim>\<open>finally\<close> schedules the next one. \<open>None\<close>:
  the tick stays blocked in \<^verbatim>\<open>getNextJob\<close>. \<^verbatim>\<open>!jobId\<close> holds of the empty string.\<close>

definition jobTick :: "'a Queue \<Rightarrow> 'a Redis \<Rightarrow> ('a Queue \<times> 'a Redis \<times> 'a effect list) option" where
  "jobTick this r =
     (case getNextJob (Queue_config this) r of
        None \<Rightarrow> None
      | Some (jobId, r1) \<Rightarrow>
          (let this1 = this\<lparr>running := running this + 1, queued := queued this - 1\<rparr>;
               (this2, fx) =
                 (if running this1 + queued this1 < concurrency this1
                  then (this1\<lparr>queued := queued this1 + 1\<rparr>, [SetImmediate])
                  else (this1, []))
           in if jobId = [] then Some (this2, r1, fx)
              else (case fromId (owner (Queue_config this2)) r1 jobId of
                      Some jobCreatedById \<Rightarrow>
                        (let (this3, r2, fx') = executeJob this2 jobCreatedById r1
                         in Some (this3, r2, fx @ fx'))
                    | None \<Rightarrow> Some (this2, r1, fx @ [ConsoleError jobId]))))"

text \<open>\<^verbatim>\<open>remove-job.lua\<close>, with \<^verbatim>\<open>KEYS[1..5]\<close> and \<^verbatim>\<open>ARGV[1]\<close>. The script returns nothing.\<close>

definition remove_job_lua ::
  "string \<Rightarrow> string \<Rightarrow> string \<Rightarrow> string \<Rightarrow> string \<Rightarrow> string \<Rightarrow> 'a Redis \<Rightarrow> 'a Redis" where
  "remove_job_lua key1 key2 key3 key4 key5 jobId r =
     (let r1 = (if sismember r key1 jobId + sismember r key2 jobId = 0
                then lrem key4 0 jobId (lrem key3 0 jobId r) else r)
      in hdel key5 jobId (srem key2 jobId (srem key1 jobId r1)))"

definition removeJob :: "QueueConfig \<Rightarrow> string \<Rightarrow> 'a Redis \<Rightarrow> 'a Redis" where
  "removeJob cfg jobId r =
     remove_job_lua (Queue_createQueueKey cfg ''succeeded'') (Queue_createQueueKey cfg ''failed'')
       (Queue_createQueueKey cfg ''waiting'') (Queue_createQueueKey cfg ''active'')
       (Queue_createQueueKey cfg ''jobs'') jobId r"

definition destroy :: "QueueConfig \<Rightarrow> 'a Redis \<Rightarrow> nat \<times> 'a Redis" where
  "destroy cfg r =
     del (map (\<lambda>key. Queue_createQueueKey cfg key)
            [''id'', ''jobs'', ''waiting'', ''active'', ''succeeded'', ''failed'']) r"

text \<open>\<^verbatim>\<open>process\<close> sets the fields and starts the first tick.\<close>

definition process :: "'a Queue \<Rightarrow> ('a \<Rightarrow> outcome) \<Rightarrow> int \<Rightarrow> 'a Queue" where
  "process this w c = this\<lparr>concurrency := c, worker := Some w, running := 0, queued := 1\<rparr>"

text \<open>The chain of ticks that \<^verbatim>\<open>process\<close> starts: the \<^verbatim>\<open>finally\<close> of each tick schedules
  the next one, and the chain goes on until a tick stays blocked on an empty \<open>waiting\<close>
  list. The result is the queue object, the store and everything the chain did, in order.
  A chain that a tick starts besides its own successor appears as \<open>SetImmediate\<close>.\<close>

function jobTicks :: "'a Queue \<Rightarrow> 'a Redis \<Rightarrow> 'a Queue \<times> 'a Redis \<times> 'a effect list" where
  "jobTicks this r =
     (case jobTick this r of
        None \<Rightarrow> (this, r, [])
      | Some (this', r', fx) \<Rightarrow>
          (let (this'', r'', fx') = jobTicks this' r' in (this'', r'', fx @ fx')))"
  by pat_completeness auto
termination
proof (relation "measure (\<lambda>(this, r).
    length (lists r (Queue_createQueueKey (Queue_config this) ''waiting'')))")
  show "wf (measure (\<lambda>(this :: 'a Queue, r :: 'a Redis).
    length (lists r (Queue_createQueueKey (Queue_config this) ''waiting''))))"
    by simp
next
  fix this :: "'a Queue" and r :: "'a Redis" and x2 this' y r' fx
  assume tick: "jobTick this r = Some x2" and x2: "(this', y) = x2" and y: "(r', fx) = y"
  let ?w = "Queue_createQueueKey (Queue_config this) ''waiting''"
  let ?a = "Queue_createQueueKey (Queue_config this) ''active''"
  have ne: "?w \<noteq> ?a"
    by (simp add: Queue_createQueueKey_def formatMessageQueueKey_def)
  from tick obtain jobId r1 where nxt: "getNextJob (Queue_config this) r = Some (jobId, r1)"
    by (auto simp: jobTick_def split: option.splits)
  from nxt ne have r1: "length (lists r1 ?w) < length (lists r ?w)"
    by (auto simp: getNextJob_def brpoplpush_def Let_def split: list.splits)
  have fin: "lists (fst (snd (finishJob cfg job hf r1))) ?w = lists r1 ?w"
    if "cfg = Queue_config this" for cfg job hf
    using ne that
    by (simp add: finishJob_def exec_def lrem_def hset_def sadd_def hdel_def Let_def)
  from tick nxt x2 y have "Queue_config this' = Queue_config this \<and> lists r' ?w = lists r1 ?w"
    using fin
    by (auto simp: jobTick_def executeJob_def Let_def split: option.splits if_splits prod.splits)
       (metis fst_conv snd_conv)+
  with r1 show "((this', r'), this, r) \<in> measure (\<lambda>(this, r).
    length (lists r (Queue_createQueueKey (Queue_config this) ''waiting'')))"
    by simp
qed

declare jobTicks.simps [simp del]

definition run_process ::
  "'a Queue \<Rightarrow> ('a \<Rightarrow> outcome) \<Rightarrow> int \<Rightarrow> 'a Redis \<Rightarrow> 'a Queue \<times> 'a Redis \<times> 'a effect list" where
  "run_process this w c r = jobTicks (process this w c) r"

text \<open>The payloads handed to the worker and the events emitted, in order.\<close>

fun worker_calls :: "'a effect list \<Rightarrow> 'a list" where
  "worker_calls [] = []"
| "worker_calls (WorkerCall d # fx) = d # worker_calls fx"
| "worker_calls (e # fx) = worker_calls fx"

fun emitted :: "'a effect list \<Rightarrow> (JobStatuses \<times> string) list" where
  "emitted [] = []"
| "emitted (Emit s jobId # fx) = (s, jobId) # emitted fx"
| "emitted (e # fx) = emitted fx"

text \<open>A producer that calls \<^verbatim>\<open>add\<close> once for each payload, as \<^verbatim>\<open>generateQueueItems\<close> does.
  Each payload comes with the id drawn for it. The result lists what each call returned.\<close>

fun add_all ::
  "QueueConfig \<Rightarrow> (string \<times> 'a) list \<Rightarrow> 'a Redis \<Rightarrow> string option list \<times> 'a Redis" where
  "add_all cfg [] r = ([], r)"
| "add_all cfg ((uuid, payload) # rest) r =
     (let (res, r1) = add cfg payload uuid r;
          (ress, r2) = add_all cfg rest r1
      in (res # ress, r2))"

section \<open>The five structures of one queue\<close>

definition jobs_of :: "string \<Rightarrow> 'a Redis \<Rightarrow> (string \<rightharpoonup> 'a json)" where
  "jobs_of name r = hashes r (formatMessageQueueKey name ''jobs'')"

definition waiting_of :: "string \<Rightarrow> 'a Redis \<Rightarrow> string list" where
  "waiting_of name r = lists r (formatMessageQueueKey name ''waiting'')"

definition active_of :: "string \<Rightarrow> 'a Redis \<Rightarrow> string list" where
  "active_of name r = lists r (formatMessageQueueKey name ''active'')"

definition succeeded_of :: "string \<Rightarrow> 'a Redis \<Rightarrow> string set" where
  "succeeded_of name r = sets r (formatMessageQueueKey name ''succeeded'')"

definition failed_of :: "string \<Rightarrow> 'a Redis \<Rightarrow> string set" where
  "failed_of name r = sets r (formatMessageQueueKey name ''failed'')"

section \<open>Several clients on one store\<close>

text \<open>
  Producers, consumers and callers of \<^verbatim>\<open>removeJob\<close> share the store, and the store runs
  one command, script or transaction at a time. A run of any number of clients is
  therefore a sequence of these steps, in the order in which the store serves them:
  \<^item> \<open>Save jobId d\<close>: a client calls \<^verbatim>\<open>new Job(config, d, jobId).save()\<close>;
  \<^item> \<open>Dequeue\<close>: a tick of some consumer gets an id from \<^verbatim>\<open>getNextJob\<close> and loads the job
    with \<^verbatim>\<open>fromId\<close>; a job that is found is handed to the worker and is in flight;
  \<^item> \<open>Finish i hasFailed\<close>: the worker of the \<open>i\<close>-th job in flight is done, and
    \<^verbatim>\<open>executeJob\<close> runs \<^verbatim>\<open>finishJob\<close> on it;
  \<^item> \<open>Remove jobId\<close>: a client calls \<^verbatim>\<open>removeJob(jobId)\<close>.
  A dequeue attempt that finds \<open>waiting\<close> empty stays blocked and changes nothing.
\<close>

datatype 'a client_op = Save string 'a | Dequeue | Finish nat bool | Remove string

record 'a world =
  store :: "'a Redis"
  inflight :: "'a Job list"
  received :: "string list"
  handed :: "string list"

definition world0 :: "'a Redis \<Rightarrow> 'a world" where
  "world0 r = \<lparr>store = r, inflight = [], received = [], handed = []\<rparr>"

fun client_step :: "QueueConfig \<Rightarrow> 'a world \<Rightarrow> 'a client_op \<Rightarrow> 'a world" where
  "client_step cfg w (Save jobId d) =
     w\<lparr>store := snd (snd (save (Job_new (owner cfg) d jobId) (store w)))\<rparr>"
| "client_step cfg w Dequeue =
     (case getNextJob cfg (store w) of
        None \<Rightarrow> w
      | Some (jobId, r1) \<Rightarrow>
          (let w1 = w\<lparr>store := r1, received := received w @ [jobId]\<rparr>
           in if jobId = [] then w1
              else (case fromId (owner cfg) r1 jobId of
                      Some job \<Rightarrow> w1\<lparr>inflight := inflight w @ [job], handed := handed w @ [jobId]\<rparr>
                    | None \<Rightarrow> w1)))"
| "client_step cfg w (Finish i hasFailed) =
     (if i < length (inflight w)
      then w\<lparr>store := fst (snd (finishJob cfg (inflight w ! i) hasFailed (store w))),
             inflight := take i (inflight w) @ drop (Suc i) (inflight w)\<rparr>
      else w)"
| "client_step cfg w (Remove jobId) = w\<lparr>store := removeJob cfg jobId (store w)\<rparr>"

definition run_clients :: "QueueConfig \<Rightarrow> 'a world \<Rightarrow> 'a client_op list \<Rightarrow> 'a world" where
  "run_clients cfg w ops = foldl (client_step cfg) w ops"

text \<open>The events that the clients emit. A completion is the \<^verbatim>\<open>finally\<close> of \<^verbatim>\<open>executeJob\<close>:
  it emits the status and the id that \<^verbatim>\<open>finishJob\<close> returns.\<close>

fun client_events ::
  "QueueConfig \<Rightarrow> 'a world \<Rightarrow> 'a client_op \<Rightarrow> (JobStatuses \<times> string) list" where
  "client_events cfg w (Finish i hasFailed) =
     (if i < length (inflight w)
      then (let ((jobStatus, job), r', fx) = finishJob cfg (inflight w ! i) hasFailed (store w)
            in [(jobStatus, id' job)])
      else [])"
| "client_events cfg w op = []"

fun run_events ::
  "QueueConfig \<Rightarrow> 'a world \<Rightarrow> 'a client_op list \<Rightarrow> (JobStatuses \<times> string) list" where
  "run_events cfg w [] = []"
| "run_events cfg w (op # ops) =
     client_events cfg w op @ run_events cfg (client_step cfg w op) ops"

fun saved_ids :: "'a client_op list \<Rightarrow> string list" where
  "saved_ids [] = []"
| "saved_ids (Save jobId d # ops) = jobId # saved_ids ops"
| "saved_ids (op # ops) = saved_ids ops"

fun is_Save :: "'a client_op \<Rightarrow> bool" where
  "is_Save (Save jobId d) = True"
| "is_Save op = False"

definition queue_empty :: "string \<Rightarrow> 'a Redis \<Rightarrow> bool" where
  "queue_empty name r \<longleftrightarrow>
     jobs_of name r = Map.empty \<and> waiting_of name r = [] \<and> active_of name r = [] \<and>
     succeeded_of name r = {} \<and> failed_of name r = {}"

text \<open>The exclusion property of the storage structures.\<close>

definition exclusive :: "string \<Rightarrow> 'a Redis \<Rightarrow> bool" where
  "exclusive name r \<longleftrightarrow>
     set (waiting_of name r) \<inter> set (active_of name r) = {} \<and>
     succeeded_of name r \<inter> failed_of name r = {}"

text \<open>Invariants of the runs of clients. The first holds while no id is handed out
  twice: the ids still waiting and the ids received so far are all different. The second
  holds while every id that is saved is new; \<open>used\<close> is the set of the ids saved so far.\<close>

definition dequeue_inv :: "string \<Rightarrow> 'a world \<Rightarrow> bool" where
  "dequeue_inv name w \<longleftrightarrow>
     distinct (waiting_of name (store w) @ received w) \<and>
     distinct (handed w) \<and> set (handed w) \<subseteq> set (received w)"

definition fresh_inv :: "string \<Rightarrow> string set \<Rightarrow> 'a world \<Rightarrow> bool" where
  "fresh_inv name used w \<longleftrightarrow>
     distinct (waiting_of name (store w) @ active_of name (store w)) \<and>
     set (waiting_of name (store w)) \<subseteq> used \<and>
     set (active_of name (store w)) \<subseteq> used \<and>
     succeeded_of name (store w) \<subseteq> used \<and>
     failed_of name (store w) \<subseteq> used \<and>
     dom (jobs_of name (store w)) \<subseteq> used \<and>
     id' ` set (inflight w) \<subseteq> used \<and>
     distinct (map id' (inflight w)) \<and>
     id' ` set (inflight w) \<inter> set (waiting_of name (store w)) = {} \<and>
     succeeded_of name (store w) \<inter> id' ` set (inflight w) = {} \<and>
     failed_of name (store w) \<inter> id' ` set (inflight w) = {} \<and>
     succeeded_of name (store w) \<inter> set (waiting_of name (store w)) = {} \<and>
     failed_of name (store w) \<inter> set (waiting_of name (store w)) = {} \<and>
     succeeded_of name (store w) \<inter> failed_of name (store w) = {}"

section \<open>A queue to run things on\<close>

text \<open>The queue \<open>q\<close> with the default retention (\<^verbatim>\<open>new Queue({redis, queueName: "q"})\<close>),
  and a worker that returns.\<close>

definition queue_q :: "nat Queue" where
  "queue_q = Queue_new ''q'' None None"

definition config_q :: QueueConfig where
  "config_q = Queue_config queue_q"

definition returning_worker :: "nat \<Rightarrow> outcome" where
  "returning_worker d = Returned"

text \<open>One job, \<^verbatim>\<open>add(0)\<close> with the id \<open>a\<close> drawn for it, on the empty store; and the run of
  \<^verbatim>\<open>process(worker, 1)\<close> on the store that the \<open>add\<close> leaves.\<close>

definition added_a :: "string option \<times> nat Redis" where
  "added_a = add config_q 0 ''a'' empty_redis"

definition processed_a :: "nat Queue \<times> nat Redis \<times> nat effect list" where
  "processed_a = run_process queue_q returning_worker 1 (snd added_a)"

section \<open>Keys\<close>

lemma key_inj [simp]:
  "formatMessageQueueKey name k = formatMessageQueueKey name k' \<longleftrightarrow> k = k'"
  by (simp add: formatMessageQueueKey_def)

lemma createQueueKey_owner [simp]:
  "createQueueKey (owner cfg) k = formatMessageQueueKey (queueName cfg) k"
  by (simp add: createQueueKey_def owner_def)

lemma Queue_createQueueKey_eq [simp]:
  "Queue_createQueueKey cfg k = formatMessageQueueKey (queueName cfg) k"
  by (simp add: Queue_createQueueKey_def)

lemmas view_defs = jobs_of_def waiting_of_def active_of_def succeeded_of_def failed_of_def

lemmas redis_defs = hexists_def hget_def hset_def hdel_def lpush_def lrem_def sismember_def
  sadd_def srem_def exec_def

section \<open>Admission\<close>

lemma add_job_lua_present:
  "hashes r key1 jobId \<noteq> None \<Longrightarrow> add_job_lua key1 key2 jobId payload r = (None, r)"
  by (auto simp: add_job_lua_def hexists_def)

lemma add_job_lua_absent:
  "hashes r key1 jobId = None \<Longrightarrow>
   add_job_lua key1 key2 jobId payload r = (Some jobId, lpush key2 jobId (hset key1 jobId payload r))"
  by (simp add: add_job_lua_def hexists_def)

lemma save_present:
  assumes "jobs_of (queueName (config this)) r (id' this) \<noteq> None"
  shows "save this r = (None, this, r)"
  using assms
  by (simp add: save_def createQueueKey_def jobs_of_def add_job_lua_present truthy_def)

lemma save_absent:
  assumes "jobs_of (queueName (config this)) r (id' this) = None"
  shows "save this r =
    ((if id' this = [] then None else Some (id' this)), this,
     lpush (formatMessageQueueKey (queueName (config this)) ''waiting'') (id' this)
       (hset (formatMessageQueueKey (queueName (config this)) ''jobs'') (id' this)
          (JSON_object (data this) (status this)) r))"
  using assms
  by (simp add: save_def createQueueKey_def jobs_of_def add_job_lua_absent truthy_def
      convertToJSONString_def)

lemma save_absent_views:
  assumes "jobs_of (queueName (config this)) r (id' this) = None"
    and "name = queueName (config this)"
    and "r' = snd (snd (save this r))"
  shows "jobs_of name r' = (jobs_of name r)(id' this \<mapsto> JSON_object (data this) (status this))"
    and "waiting_of name r' = id' this # waiting_of name r"
    and "active_of name r' = active_of name r"
    and "succeeded_of name r' = succeeded_of name r"
    and "failed_of name r' = failed_of name r"
  using assms by (simp_all add: save_absent view_defs lpush_def hset_def)

text \<open>
  Claim C1: admission is a de-duplication guard; an id that is absent from \<open>jobs\<close> is
  written to the hash and to \<open>waiting\<close>, and \<open>save\<close> returns the id. The guard and the
  two writes are as claimed (\<open>save_present\<close>, \<open>save_absent\<close>). The return value is not:
  a job whose id is the empty string is admitted, hash entry and list entry both written,
  and \<open>save\<close> returns null, because \<^verbatim>\<open>if (resJobId)\<close> takes the empty string for no id.
\<close>

theorem save_empty_id_returns_null:
  "(let job = Job_new \<lparr>queueName = ''q''\<rparr> (0::nat) [];
        (res, job', r') = save job empty_redis
    in jobs_of ''q'' empty_redis (id' job) = None \<and> res = None \<and>
       jobs_of ''q'' r' [] = Some (JSON_object 0 created) \<and> waiting_of ''q'' r' = [[]])"
  by (simp add: save_def Job_new_def createQueueKey_def add_job_lua_def hexists_def truthy_def
      convertToJSONString_def empty_redis_def lpush_def hset_def view_defs)

text \<open>
  Claim C10: the admission script replies nil or the very id it was given, and \<open>save\<close>
  returns null or the id the job had before the call, and leaves that id in place.
\<close>

theorem save_id_stable:
  "fst (add_job_lua key1 key2 jobId payload r) \<in> {None, Some jobId} \<and>
   (case save this r of
      (res, this', r') \<Rightarrow> res \<in> {None, Some (id' this)} \<and> id' this' = id' this)"
  by (auto simp: save_def add_job_lua_def truthy_def split: option.splits)

section \<open>Destroy\<close>

lemma del_snd:
  "hashes (snd (del ks r)) k = (if k \<in> set ks then Map.empty else hashes r k) \<and>
   lists (snd (del ks r)) k = (if k \<in> set ks then [] else lists r k) \<and>
   sets (snd (del ks r)) k = (if k \<in> set ks then {} else sets r k)"
  by (induction ks arbitrary: r) (simp_all add: del1_def case_prod_unfold Let_def)

lemma destroy_views:
  "jobs_of (queueName cfg) (snd (destroy cfg r)) = Map.empty"
  "waiting_of (queueName cfg) (snd (destroy cfg r)) = []"
  "active_of (queueName cfg) (snd (destroy cfg r)) = []"
  "succeeded_of (queueName cfg) (snd (destroy cfg r)) = {}"
  "failed_of (queueName cfg) (snd (destroy cfg r)) = {}"
  by (simp_all add: destroy_def view_defs del_snd del: del.simps)

lemma empty_redis_views:
  "jobs_of name empty_redis = Map.empty"
  "waiting_of name empty_redis = []"
  "active_of name empty_redis = []"
  "succeeded_of name empty_redis = {}"
  "failed_of name empty_redis = {}"
  by (simp_all add: view_defs empty_redis_def)

text \<open>What \<open>add\<close> returns and what it makes of the five structures depends on the
  \<open>jobs\<close> hash and on the structure itself only.\<close>

lemma add_views:
  "fst (add cfg payload uuid r) =
     (if jobs_of (queueName cfg) r uuid \<noteq> None \<or> uuid = [] then None else Some uuid)"
  "jobs_of (queueName cfg) (snd (add cfg payload uuid r)) =
     (if jobs_of (queueName cfg) r uuid \<noteq> None then jobs_of (queueName cfg) r
      else (jobs_of (queueName cfg) r)(uuid \<mapsto> JSON_object payload created))"
  "waiting_of (queueName cfg) (snd (add cfg payload uuid r)) =
     (if jobs_of (queueName cfg) r uuid \<noteq> None then waiting_of (queueName cfg) r
      else uuid # waiting_of (queueName cfg) r)"
  "active_of (queueName cfg) (snd (add cfg payload uuid r)) = active_of (queueName cfg) r"
  "succeeded_of (queueName cfg) (snd (add cfg payload uuid r)) = succeeded_of (queueName cfg) r"
  "failed_of (queueName cfg) (snd (add cfg payload uuid r)) = failed_of (queueName cfg) r"
proof -
  let ?job = "Job_new (owner cfg) payload uuid"
  have j: "queueName (config ?job) = queueName cfg" "id' ?job = uuid" "data ?job = payload"
    "status ?job = created"
    by (simp_all add: Job_new_def owner_def)
  show "fst (add cfg payload uuid r) =
     (if jobs_of (queueName cfg) r uuid \<noteq> None \<or> uuid = [] then None else Some uuid)"
  proof (cases "jobs_of (queueName cfg) r uuid")
    case None
    then show ?thesis using save_absent [of ?job r] by (simp add: add_def j)
  next
    case (Some v)
    then show ?thesis using save_present [of ?job r] by (simp add: add_def j)
  qed
  show "jobs_of (queueName cfg) (snd (add cfg payload uuid r)) =
     (if jobs_of (queueName cfg) r uuid \<noteq> None then jobs_of (queueName cfg) r
      else (jobs_of (queueName cfg) r)(uuid \<mapsto> JSON_object payload created))"
  proof (cases "jobs_of (queueName cfg) r uuid")
    case None
    then show ?thesis using save_absent [of ?job r]
      by (simp add: add_def j view_defs lpush_def hset_def)
  next
    case (Some v)
    then show ?thesis using save_present [of ?job r] by (simp add: add_def j)
  qed
  show "waiting_of (queueName cfg) (snd (add cfg payload uuid r)) =
     (if jobs_of (queueName cfg) r uuid \<noteq> None then waiting_of (queueName cfg) r
      else uuid # waiting_of (queueName cfg) r)"
  proof (cases "jobs_of (queueName cfg) r uuid")
    case None
    then show ?thesis using save_absent [of ?job r]
      by (simp add: add_def j view_defs lpush_def hset_def)
  next
    case (Some v)
    then show ?thesis using save_present [of ?job r] by (simp add: add_def j)
  qed
  show "active_of (queueName cfg) (snd (add cfg payload uuid r)) = active_of (queueName cfg) r"
    "succeeded_of (queueName cfg) (snd (add cfg payload uuid r)) = succeeded_of (queueName cfg) r"
    "failed_of (queueName cfg) (snd (add cfg payload uuid r)) = failed_of (queueName cfg) r"
    using save_absent [of ?job r] save_present [of ?job r]
    by (cases "jobs_of (queueName cfg) r uuid"; simp add: add_def j view_defs lpush_def hset_def)+
qed

text \<open>
  Claim C9: after \<open>destroy\<close>, whatever the store held, the \<open>jobs\<close> hash, the \<open>waiting\<close>
  and \<open>active\<close> lists and the \<open>succeeded\<close> and \<open>failed\<close> sets of the queue are empty, and
  an \<open>add\<close> that follows returns what it returns on the empty store and leaves the five
  structures as it leaves them there.
\<close>

theorem destroy_clears_queue:
  "jobs_of (queueName cfg) (snd (destroy cfg r)) = Map.empty \<and>
   waiting_of (queueName cfg) (snd (destroy cfg r)) = [] \<and>
   active_of (queueName cfg) (snd (destroy cfg r)) = [] \<and>
   succeeded_of (queueName cfg) (snd (destroy cfg r)) = {} \<and>
   failed_of (queueName cfg) (snd (destroy cfg r)) = {} \<and>
   fst (add cfg payload uuid (snd (destroy cfg r))) = fst (add cfg payload uuid empty_redis) \<and>
   jobs_of (queueName cfg) (snd (add cfg payload uuid (snd (destroy cfg r)))) =
     jobs_of (queueName cfg) (snd (add cfg payload uuid empty_redis)) \<and>
   waiting_of (queueName cfg) (snd (add cfg payload uuid (snd (destroy cfg r)))) =
     waiting_of (queueName cfg) (snd (add cfg payload uuid empty_redis)) \<and>
   active_of (queueName cfg) (snd (add cfg payload uuid (snd (destroy cfg r)))) =
     active_of (queueName cfg) (snd (add cfg payload uuid empty_redis)) \<and>
   succeeded_of (queueName cfg) (snd (add cfg payload uuid (snd (destroy cfg r)))) =
     succeeded_of (queueName cfg) (snd (add cfg payload uuid empty_redis)) \<and>
   failed_of (queueName cfg) (snd (add cfg payload uuid (snd (destroy cfg r)))) =
     failed_of (queueName cfg) (snd (add cfg payload uuid empty_redis))"
  by (simp add: add_views destroy_views empty_redis_views)

section \<open>Removal\<close>

lemma removeJob_views:
  "waiting_of (queueName cfg) (removeJob cfg jobId r) =
     (if jobId \<in> succeeded_of (queueName cfg) r \<or> jobId \<in> failed_of (queueName cfg) r
      then waiting_of (queueName cfg) r
      else filter (\<lambda>x. x \<noteq> jobId) (waiting_of (queueName cfg) r))"
  "active_of (queueName cfg) (removeJob cfg jobId r) =
     (if jobId \<in> succeeded_of (queueName cfg) r \<or> jobId \<in> failed_of (queueName cfg) r
      then active_of (queueName cfg) r
      else filter (\<lambda>x. x \<noteq> jobId) (active_of (queueName cfg) r))"
  "succeeded_of (queueName cfg) (removeJob cfg jobId r) = succeeded_of (queueName cfg) r - {jobId}"
  "failed_of (queueName cfg) (removeJob cfg jobId r) = failed_of (queueName cfg) r - {jobId}"
  "jobs_of (queueName cfg) (removeJob cfg jobId r) = (jobs_of (queueName cfg) r)(jobId := None)"
  by (simp_all add: removeJob_def remove_job_lua_def view_defs redis_defs Let_def)

section \<open>Dequeue and completion\<close>

lemma getNextJob_blocked:
  "getNextJob cfg r = None \<longleftrightarrow> waiting_of (queueName cfg) r = []"
  by (simp add: getNextJob_def brpoplpush_def waiting_of_def Let_def split: list.splits)

lemma getNextJob_views:
  assumes "getNextJob cfg r = Some (jobId, r1)"
  shows "waiting_of (queueName cfg) r = waiting_of (queueName cfg) r1 @ [jobId]"
    and "active_of (queueName cfg) r1 = jobId # active_of (queueName cfg) r"
    and "hashes r1 = hashes r"
    and "sets r1 = sets r"
proof -
  from assms obtain rest where rv: "rev (lists r (formatMessageQueueKey (queueName cfg) ''waiting'')) = jobId # rest"
    and r1: "r1 = r\<lparr>lists := ((lists r)(formatMessageQueueKey (queueName cfg) ''waiting'' := rev rest))
                (formatMessageQueueKey (queueName cfg) ''active'' :=
                   jobId # lists r (formatMessageQueueKey (queueName cfg) ''active''))\<rparr>"
    by (auto simp: getNextJob_def brpoplpush_def Let_def split: list.splits)
  from rv have "lists r (formatMessageQueueKey (queueName cfg) ''waiting'') = rev rest @ [jobId]"
    by (metis rev_rev_ident rev.simps(2))
  with r1 show "waiting_of (queueName cfg) r = waiting_of (queueName cfg) r1 @ [jobId]"
    by (simp add: view_defs)
  from r1 show "active_of (queueName cfg) r1 = jobId # active_of (queueName cfg) r"
    "hashes r1 = hashes r" "sets r1 = sets r"
    by (simp_all add: view_defs)
qed

lemma getNextJob_Some:
  assumes "waiting_of (queueName cfg) r = ws @ [jobId]"
  shows "\<exists>r1. getNextJob cfg r = Some (jobId, r1)"
  using assms by (simp add: getNextJob_def brpoplpush_def waiting_of_def Let_def)

lemma finishJob_result:
  "fst (finishJob cfg job hasFailed r) =
     ((if hasFailed then failed else succeeded),
      job\<lparr>status := (if hasFailed then failed else succeeded)\<rparr>)"
  by (simp add: finishJob_def Let_def)

lemma finishJob_views:
  "waiting_of (queueName cfg) (fst (snd (finishJob cfg job hasFailed r))) =
     waiting_of (queueName cfg) r"
  "active_of (queueName cfg) (fst (snd (finishJob cfg job hasFailed r))) =
     filter (\<lambda>x. x \<noteq> id' job) (active_of (queueName cfg) r)"
  "jobs_of (queueName cfg) (fst (snd (finishJob cfg job hasFailed r))) =
     (if (if hasFailed then keepOnFailure cfg else keepOnSuccess cfg)
      then (jobs_of (queueName cfg) r)(id' job \<mapsto> JSON_object (data job) (status job))
      else (jobs_of (queueName cfg) r)(id' job := None))"
  "succeeded_of (queueName cfg) (fst (snd (finishJob cfg job hasFailed r))) =
     (if \<not> hasFailed \<and> keepOnSuccess cfg then insert (id' job) (succeeded_of (queueName cfg) r)
      else succeeded_of (queueName cfg) r)"
  "failed_of (queueName cfg) (fst (snd (finishJob cfg job hasFailed r))) =
     (if hasFailed \<and> keepOnFailure cfg then insert (id' job) (failed_of (queueName cfg) r)
      else failed_of (queueName cfg) r)"
  by (simp_all add: finishJob_def view_defs redis_defs convertToJSONString_def Let_def)

lemma fromId_views:
  "fromId (owner cfg) r jobId =
     (case jobs_of (queueName cfg) r jobId of
        None \<Rightarrow> None
      | Some v \<Rightarrow> Some \<lparr>id' = jobId, status = json_status v, config = owner cfg, data = json_data v\<rparr>)"
  by (simp add: fromId_def fromData_def Job_new_def hget_def jobs_of_def Let_def
      split: option.splits)

section \<open>One execution and one tick\<close>

lemma finishJob_effects:
  "\<exists>multi. snd (finishJob cfg job hasFailed r) = (exec multi r, [MultiExec multi])"
  by (simp add: finishJob_def Let_def case_prod_unfold)

lemma call_worker_counters [simp]:
  "call_worker (running_update f this) d = call_worker this d"
  "call_worker (queued_update g this) d = call_worker this d"
  by (simp_all add: call_worker_def)

lemma executeJob_eq:
  "executeJob this job r =
     ((if call_worker this (data job) = Raised then this
       else this\<lparr>running := running this - 1, queued := queued this + 1\<rparr>),
      fst (snd (finishJob (Queue_config this) job (call_worker this (data job) = Raised) r)),
      WorkerCall (data job) #
      snd (snd (finishJob (Queue_config this) job (call_worker this (data job) = Raised) r)) @
      [Emit (if call_worker this (data job) = Raised then failed else succeeded) (id' job)])"
  by (simp add: executeJob_def Let_def case_prod_unfold finishJob_result)

text \<open>A tick that finds a job: what it returns and what it leaves in the store.\<close>

lemma jobTick_found:
  assumes w: "waiting_of (queueName (Queue_config this)) r = ws @ [jobId]"
    and ne: "jobId \<noteq> []"
    and v: "jobs_of (queueName (Queue_config this)) r jobId = Some v"
  shows "\<exists>this' r' multi.
     jobTick this r =
       Some (this', r',
         (if running this + queued this < concurrency this then [SetImmediate] else []) @
         [WorkerCall (json_data v), MultiExec multi,
          Emit (if call_worker this (json_data v) = Raised then failed else succeeded) jobId]) \<and>
     Queue_config this' = Queue_config this \<and> concurrency this' = concurrency this \<and>
     worker this' = worker this \<and>
     running this' + queued this' =
       running this + queued this + (if running this + queued this < concurrency this then 1 else 0) \<and>
     waiting_of (queueName (Queue_config this)) r' = ws \<and>
     active_of (queueName (Queue_config this)) r' =
       filter (\<lambda>x. x \<noteq> jobId) (active_of (queueName (Queue_config this)) r) \<and>
     jobs_of (queueName (Queue_config this)) r' =
       (if (if call_worker this (json_data v) = Raised then keepOnFailure (Queue_config this)
            else keepOnSuccess (Queue_config this))
        then (jobs_of (queueName (Queue_config this)) r)(jobId \<mapsto> v)
        else (jobs_of (queueName (Queue_config this)) r)(jobId := None)) \<and>
     succeeded_of (queueName (Queue_config this)) r' =
       (if call_worker this (json_data v) \<noteq> Raised \<and> keepOnSuccess (Queue_config this)
        then insert jobId (succeeded_of (queueName (Queue_config this)) r)
        else succeeded_of (queueName (Queue_config this)) r) \<and>
     failed_of (queueName (Queue_config this)) r' =
       (if call_worker this (json_data v) = Raised \<and> keepOnFailure (Queue_config this)
        then insert jobId (failed_of (queueName (Queue_config this)) r)
        else failed_of (queueName (Queue_config this)) r)"
proof -
  let ?cfg = "Queue_config this"
  let ?name = "queueName ?cfg"
  let ?job = "\<lparr>id' = jobId, status = json_status v, config = owner ?cfg, data = json_data v\<rparr>"
  let ?hasError = "call_worker this (json_data v) = Raised"
  let ?spawn = "running this + queued this < concurrency this"
  let ?this2 = "if ?spawn then this\<lparr>running := running this + 1, queued := queued this\<rparr>
                else this\<lparr>running := running this + 1, queued := queued this - 1\<rparr>"
  obtain r1 where g: "getNextJob ?cfg r = Some (jobId, r1)"
    using getNextJob_Some [OF w] by blast
  note gv = getNextJob_views [OF g]
  have jobs1: "jobs_of ?name r1 = jobs_of ?name r"
    and succ1: "succeeded_of ?name r1 = succeeded_of ?name r"
    and fail1: "failed_of ?name r1 = failed_of ?name r"
    using gv(3,4) by (simp_all add: view_defs)
  have wait1: "waiting_of ?name r1 = ws"
    using gv(1) w by simp
  have f: "fromId (owner ?cfg) r1 jobId = Some ?job"
    using v by (simp add: fromId_views jobs1)
  let ?r' = "fst (snd (finishJob ?cfg ?job ?hasError r1))"
  obtain multi where m: "snd (finishJob ?cfg ?job ?hasError r1) = (exec multi r1, [MultiExec multi])"
    using finishJob_effects by blast
  let ?this' = "if ?hasError then ?this2
                else ?this2\<lparr>running := running ?this2 - 1, queued := queued ?this2 + 1\<rparr>"
  have tick: "jobTick this r =
      Some (?this', ?r',
        (if ?spawn then [SetImmediate] else []) @
        [WorkerCall (json_data v), MultiExec multi,
         Emit (if ?hasError then failed else succeeded) jobId])"
    using g f ne m
    by (cases "call_worker this (json_data v) = Raised")
       (simp_all add: jobTick_def Let_def case_prod_unfold executeJob_eq)
  have v': "JSON_object (json_data v) (json_status v) = v"
    by simp
  have views: "waiting_of ?name ?r' = ws"
    "active_of ?name ?r' = filter (\<lambda>x. x \<noteq> jobId) (active_of ?name r)"
    "jobs_of ?name ?r' =
       (if (if ?hasError then keepOnFailure ?cfg else keepOnSuccess ?cfg)
        then (jobs_of ?name r)(jobId \<mapsto> v) else (jobs_of ?name r)(jobId := None))"
    "succeeded_of ?name ?r' =
       (if \<not> ?hasError \<and> keepOnSuccess ?cfg then insert jobId (succeeded_of ?name r)
        else succeeded_of ?name r)"
    "failed_of ?name ?r' =
       (if ?hasError \<and> keepOnFailure ?cfg then insert jobId (failed_of ?name r)
        else failed_of ?name r)"
    using gv(2) by (simp_all add: finishJob_views jobs1 succ1 fail1 wait1 v')
  have fields: "Queue_config ?this' = ?cfg" "concurrency ?this' = concurrency this"
    "worker ?this' = worker this"
    "running ?this' + queued ?this' = running this + queued this + (if ?spawn then 1 else 0)"
    by simp_all
  show ?thesis
    using tick views fields by blast
qed

lemma jobTick_blocked:
  "waiting_of (queueName (Queue_config this)) r = [] \<Longrightarrow> jobTick this r = None"
proof -
  assume "waiting_of (queueName (Queue_config this)) r = []"
  then have "getNextJob (Queue_config this) r = None"
    by (simp add: getNextJob_blocked)
  then show ?thesis
    by (simp add: jobTick_def)
qed

lemma jobTicks_blocked:
  "waiting_of (queueName (Queue_config this)) r = [] \<Longrightarrow> jobTicks this r = (this, r, [])"
  by (subst jobTicks.simps) (simp add: jobTick_blocked)

lemma jobTicks_step:
  "jobTick this r = Some (this', r', fx) \<Longrightarrow>
   jobTicks this r =
     (fst (jobTicks this' r'), fst (snd (jobTicks this' r')), fx @ snd (snd (jobTicks this' r')))"
  by (subst jobTicks.simps) (simp add: case_prod_unfold Let_def)

lemma worker_calls_append [simp]:
  "worker_calls (fx @ fx') = worker_calls fx @ worker_calls fx'"
  by (induction fx rule: worker_calls.induct) simp_all

lemma emitted_append [simp]:
  "emitted (fx @ fx') = emitted fx @ emitted fx'"
  by (induction fx rule: emitted.induct) simp_all

section \<open>The queue \<open>q\<close> and its one job\<close>

lemma config_q_simps [simp]:
  "queueName config_q = ''q''" "keepOnSuccess config_q" "keepOnFailure config_q"
  by (simp_all add: config_q_def queue_q_def Queue_new_def)

lemma process_q_simps [simp]:
  "Queue_config (process queue_q w c) = config_q"
  "concurrency (process queue_q w c) = c"
  "running (process queue_q w c) = 0"
  "queued (process queue_q w c) = 1"
  "call_worker (process queue_q w c) d = w d"
  by (simp_all add: process_def config_q_def call_worker_def)

lemma added_a_views:
  "fst added_a = Some ''a''"
  "jobs_of ''q'' (snd added_a) = [''a'' \<mapsto> JSON_object 0 created]"
  "waiting_of ''q'' (snd added_a) = [''a'']"
  "active_of ''q'' (snd added_a) = []"
  "succeeded_of ''q'' (snd added_a) = {}"
  "failed_of ''q'' (snd added_a) = {}"
  using add_views [of config_q 0 "''a''" "empty_redis :: nat Redis"]
  by (simp_all add: added_a_def empty_redis_views)

lemma processed_a_views:
  "jobs_of ''q'' (fst (snd processed_a)) = [''a'' \<mapsto> JSON_object 0 created]"
  "waiting_of ''q'' (fst (snd processed_a)) = []"
  "active_of ''q'' (fst (snd processed_a)) = []"
  "succeeded_of ''q'' (fst (snd processed_a)) = {''a''}"
  "failed_of ''q'' (fst (snd processed_a)) = {}"
  "emitted (snd (snd processed_a)) = [(succeeded, ''a'')]"
proof -
  let ?this = "process queue_q returning_worker 1"
  obtain this' r' multi where
    tick: "jobTick ?this (snd added_a) =
      Some (this', r', [WorkerCall 0, MultiExec multi, Emit succeeded ''a''])"
    and cfg: "Queue_config this' = config_q"
    and views: "waiting_of ''q'' r' = []" "active_of ''q'' r' = []"
      "jobs_of ''q'' r' = [''a'' \<mapsto> JSON_object 0 created]"
      "succeeded_of ''q'' r' = {''a''}" "failed_of ''q'' r' = {}"
    using jobTick_found [of ?this "snd added_a" "[]" "''a''" "JSON_object 0 created"]
    by (auto simp: added_a_views returning_worker_def)
  have "jobTicks this' r' = (this', r', [])"
    using jobTicks_blocked [of this' r'] by (simp add: cfg views)
  then have pa: "processed_a = (this', r', [WorkerCall 0, MultiExec multi, Emit succeeded ''a''])"
    using jobTicks_step [OF tick] by (simp add: processed_a_def run_process_def)
  show "jobs_of ''q'' (fst (snd processed_a)) = [''a'' \<mapsto> JSON_object 0 created]"
    "waiting_of ''q'' (fst (snd processed_a)) = []"
    "active_of ''q'' (fst (snd processed_a)) = []"
    "succeeded_of ''q'' (fst (snd processed_a)) = {''a''}"
    "failed_of ''q'' (fst (snd processed_a)) = {}"
    "emitted (snd (snd processed_a)) = [(succeeded, ''a'')]"
    by (simp_all add: pa views)
qed

text \<open>
  Claim C2: after a job has succeeded on a queue with \<open>keepOnSuccess = true\<close>, its entry
  in \<open>jobs\<close> is present with the serialized status \<open>succeeded\<close>, and its id is in
  \<open>succeeded\<close>. On the queue \<open>q\<close>, which keeps its jobs, the job \<open>a\<close> is added and
  processed by a worker that returns: the id is in \<open>succeeded\<close> and the event is
  \<open>succeeded\<close>, and the entry in \<open>jobs\<close> still says \<open>created\<close>. \<open>finishJob\<close> serializes
  the job before it assigns the new status (\<open>finishJob_views\<close>).
\<close>

theorem kept_job_keeps_old_status:
  "fst added_a = Some ''a'' \<and>
   keepOnSuccess config_q \<and>
   emitted (snd (snd processed_a)) = [(succeeded, ''a'')] \<and>
   ''a'' \<in> succeeded_of ''q'' (fst (snd processed_a)) \<and>
   jobs_of ''q'' (fst (snd processed_a)) ''a'' = Some (JSON_object 0 created)"
  by (simp add: added_a_views processed_a_views)

text \<open>
  Claim C3, as stated: \<open>removeJob\<close> of an id that is in \<open>succeeded\<close> removes neither its
  entry in \<open>jobs\<close> nor its membership of \<open>succeeded\<close>. On the store left by the job \<open>a\<close>
  that succeeded and was kept, \<open>removeJob\<close> removes both.
\<close>

theorem removeJob_strips_kept_job:
  "''a'' \<in> succeeded_of ''q'' (fst (snd processed_a)) \<and>
   jobs_of ''q'' (fst (snd processed_a)) ''a'' \<noteq> None \<and>
   ''a'' \<notin> succeeded_of ''q'' (removeJob config_q ''a'' (fst (snd processed_a))) \<and>
   jobs_of ''q'' (removeJob config_q ''a'' (fst (snd processed_a))) ''a'' = None"
  using removeJob_views(3,5) [of config_q "''a''" "fst (snd processed_a)"]
  by (simp add: processed_a_views)

text \<open>
  Claim C3, amended: \<open>removeJob\<close> of an id that is in \<open>succeeded\<close> or in \<open>failed\<close> leaves
  the \<open>waiting\<close> and \<open>active\<close> lists as they are; \<open>removeJob\<close> of an id that is in neither
  set, such as an id that is in \<open>waiting\<close> only, removes it from \<open>waiting\<close> and from
  \<open>active\<close>; and in both cases the id is afterwards in neither set and has no entry in
  \<open>jobs\<close>.
\<close>

theorem removeJob_effect:
  "(jobId \<in> succeeded_of (queueName cfg) r \<or> jobId \<in> failed_of (queueName cfg) r \<longrightarrow>
      waiting_of (queueName cfg) (removeJob cfg jobId r) = waiting_of (queueName cfg) r \<and>
      active_of (queueName cfg) (removeJob cfg jobId r) = active_of (queueName cfg) r) \<and>
   (jobId \<notin> succeeded_of (queueName cfg) r \<and> jobId \<notin> failed_of (queueName cfg) r \<longrightarrow>
      jobId \<notin> set (waiting_of (queueName cfg) (removeJob cfg jobId r)) \<and>
      jobId \<notin> set (active_of (queueName cfg) (removeJob cfg jobId r))) \<and>
   jobId \<notin> succeeded_of (queueName cfg) (removeJob cfg jobId r) \<and>
   jobId \<notin> failed_of (queueName cfg) (removeJob cfg jobId r) \<and>
   jobs_of (queueName cfg) (removeJob cfg jobId r) jobId = None"
  by (simp add: removeJob_views)

theorem removeJob_effect_witness:
  "(''a'' \<in> succeeded_of ''q'' (fst (snd processed_a)) \<and>
    waiting_of ''q'' (removeJob config_q ''a'' (fst (snd processed_a))) = [] \<and>
    active_of ''q'' (removeJob config_q ''a'' (fst (snd processed_a))) = [] \<and>
    jobs_of ''q'' (removeJob config_q ''a'' (fst (snd processed_a))) ''a'' = None) \<and>
   (''a'' \<notin> succeeded_of ''q'' (snd added_a) \<and> ''a'' \<notin> failed_of ''q'' (snd added_a) \<and>
    ''a'' \<in> set (waiting_of ''q'' (snd added_a)) \<and>
    ''a'' \<notin> set (waiting_of ''q'' (removeJob config_q ''a'' (snd added_a))) \<and>
    ''a'' \<notin> set (active_of ''q'' (removeJob config_q ''a'' (snd added_a))) \<and>
    jobs_of ''q'' (removeJob config_q ''a'' (snd added_a)) ''a'' = None)"
  using removeJob_effect [of "''a''" config_q "fst (snd processed_a)"]
    removeJob_effect [of "''a''" config_q "snd added_a"]
  by (simp add: processed_a_views added_a_views)

section \<open>The status field\<close>

lemma fromId_eq:
  "fromId oc r jobId =
     (case jobs_of (queueName oc) r jobId of
        None \<Rightarrow> None
      | Some v \<Rightarrow> Some \<lparr>id' = jobId, status = json_status v, config = oc, data = json_data v\<rparr>)"
  by (simp add: fromId_def fromData_def Job_new_def hget_def jobs_of_def createQueueKey_def Let_def
      split: option.splits)

text \<open>
  Claim C8, as stated: a load after a successful admission and before dispatch yields a
  job whose status is \<open>waiting\<close>. The job \<open>a\<close> is admitted and loaded: its status is
  \<open>created\<close>.
\<close>

theorem loaded_status_after_add:
  "fst added_a = Some ''a'' \<and>
   waiting_of ''q'' (snd added_a) = [''a''] \<and>
   map_option status (fromId (owner config_q) (snd added_a) ''a'') \<noteq> Some waiting \<and>
   map_option status (fromId (owner config_q) (snd added_a) ''a'') = Some created"
  by (simp add: added_a_views fromId_views)

section \<open>First in, first out\<close>

lemma add_all_Cons [simp]:
  "add_all cfg ((uuid, payload) # rest) r =
     (fst (add cfg payload uuid r) # fst (add_all cfg rest (snd (add cfg payload uuid r))),
      snd (add_all cfg rest (snd (add cfg payload uuid r))))"
  by (simp add: case_prod_unfold Let_def)

declare add_all.simps(2) [simp del]

text \<open>A producer whose calls of \<open>add\<close> all returned the id: the ids are distinct, none is
  empty, and they are on \<open>waiting\<close>, the last one at the head.\<close>

lemma add_all_accepted:
  assumes "fst (add_all cfg jobs r) = map (\<lambda>j. Some (fst j)) jobs"
  shows "waiting_of (queueName cfg) (snd (add_all cfg jobs r)) =
           rev (map fst jobs) @ waiting_of (queueName cfg) r \<and>
         distinct (map fst jobs) \<and> [] \<notin> set (map fst jobs) \<and>
         (\<forall>i \<in> set (map fst jobs). jobs_of (queueName cfg) r i = None) \<and>
         (\<forall>i. jobs_of (queueName cfg) (snd (add_all cfg jobs r)) i =
            (case map_of jobs i of
               Some d \<Rightarrow> Some (JSON_object d created)
             | None \<Rightarrow> jobs_of (queueName cfg) r i))"
  using assms
proof (induction jobs arbitrary: r)
  case Nil
  then show ?case by simp
next
  case (Cons j jobs)
  obtain uuid payload where j: "j = (uuid, payload)"
    by (cases j)
  let ?n = "queueName cfg"
  let ?r1 = "snd (add cfg payload uuid r)"
  from Cons.prems have res: "fst (add cfg payload uuid r) = Some uuid"
    and rest: "fst (add_all cfg jobs ?r1) = map (\<lambda>j. Some (fst j)) jobs"
    by (simp_all add: j)
  from res have fresh: "jobs_of ?n r uuid = None" and ne: "uuid \<noteq> []"
    by (simp_all add: add_views split: if_splits)
  have jobs1: "jobs_of ?n ?r1 = (jobs_of ?n r)(uuid \<mapsto> JSON_object payload created)"
    and wait1: "waiting_of ?n ?r1 = uuid # waiting_of ?n r"
    using fresh by (simp_all add: add_views)
  note IH = Cons.IH [OF rest]
  have final: "snd (add_all cfg (j # jobs) r) = snd (add_all cfg jobs ?r1)"
    by (simp add: j)
  from IH have notin: "uuid \<notin> set (map fst jobs)"
    by (auto simp: jobs1)
  have "waiting_of ?n (snd (add_all cfg (j # jobs) r)) =
      rev (map fst (j # jobs)) @ waiting_of ?n r"
    using IH by (simp add: wait1 j)
  moreover have "distinct (map fst (j # jobs))"
    using IH notin by (simp add: j)
  moreover have "[] \<notin> set (map fst (j # jobs))"
    using IH ne by (auto simp: j)
  moreover have "\<forall>i \<in> set (map fst (j # jobs)). jobs_of ?n r i = None"
    using IH fresh notin by (auto simp: j jobs1 split: if_splits)
  moreover have "\<forall>i. jobs_of ?n (snd (add_all cfg (j # jobs) r)) i =
      (case map_of (j # jobs) i of
         Some d \<Rightarrow> Some (JSON_object d created)
       | None \<Rightarrow> jobs_of ?n r i)"
  proof
    fix i
    show "jobs_of ?n (snd (add_all cfg (j # jobs) r)) i =
      (case map_of (j # jobs) i of
         Some d \<Rightarrow> Some (JSON_object d created)
       | None \<Rightarrow> jobs_of ?n r i)"
    proof (cases "i = uuid")
      case True
      with notin have "map_of jobs i = None"
        by (simp add: map_of_eq_None_iff)
      with IH True show ?thesis
        by (simp add: jobs1 j)
    next
      case False
      with IH show ?thesis
        by (simp add: jobs1 j split: option.splits)
    qed
  qed
  ultimately show ?case by blast
qed

text \<open>The chain of ticks on a store whose \<open>waiting\<close> list holds distinct, non-empty ids of
  persisted jobs, when the counters leave no room for a further chain.\<close>

lemma jobTicks_fifo:
  assumes "waiting_of (queueName (Queue_config this)) r = rev (map fst jobs)"
    and "distinct (map fst jobs)"
    and "[] \<notin> set (map fst jobs)"
    and "\<forall>j \<in> set jobs. \<exists>s. jobs_of (queueName (Queue_config this)) r (fst j) =
           Some (JSON_object (snd j) s)"
    and "concurrency this \<le> running this + queued this"
  shows "worker_calls (snd (snd (jobTicks this r))) = map snd jobs \<and>
         map snd (emitted (snd (snd (jobTicks this r)))) = map fst jobs \<and>
         SetImmediate \<notin> set (snd (snd (jobTicks this r)))"
  using assms
proof (induction jobs arbitrary: this r)
  case Nil
  then show ?case by (simp add: jobTicks_blocked)
next
  case (Cons j jobs)
  let ?n = "queueName (Queue_config this)"
  obtain s where v: "jobs_of ?n r (fst j) = Some (JSON_object (snd j) s)"
    using Cons.prems(4) by auto
  have w: "waiting_of ?n r = rev (map fst jobs) @ [fst j]"
    using Cons.prems(1) by simp
  have ne: "fst j \<noteq> []"
    using Cons.prems(3) by auto
  have nospawn: "\<not> running this + queued this < concurrency this"
    using Cons.prems(5) by simp
  obtain this' r' multi where
    tick: "jobTick this r =
      Some (this', r',
        [WorkerCall (snd j), MultiExec multi,
         Emit (if call_worker this (snd j) = Raised then failed else succeeded) (fst j)])"
    and cfg: "Queue_config this' = Queue_config this"
    and conc: "concurrency this' = concurrency this"
    and sum: "running this' + queued this' = running this + queued this"
    and wait': "waiting_of ?n r' = rev (map fst jobs)"
    and jobs': "jobs_of ?n r' =
       (if (if call_worker this (snd j) = Raised then keepOnFailure (Queue_config this)
            else keepOnSuccess (Queue_config this))
        then (jobs_of ?n r)(fst j \<mapsto> JSON_object (snd j) s)
        else (jobs_of ?n r)(fst j := None))"
    using jobTick_found [OF w ne v] nospawn by auto
  have others: "\<forall>j' \<in> set jobs. \<exists>s. jobs_of (queueName (Queue_config this')) r' (fst j') =
      Some (JSON_object (snd j') s)"
  proof
    fix j' assume j': "j' \<in> set jobs"
    then have "fst j' \<in> set (map fst jobs)"
      by simp
    moreover have "fst j \<notin> set (map fst jobs)"
      using Cons.prems(2) by simp
    ultimately have "fst j' \<noteq> fst j"
      by metis
    moreover obtain s' where "jobs_of ?n r (fst j') = Some (JSON_object (snd j') s')"
      using Cons.prems(4) j' by auto
    ultimately show "\<exists>s. jobs_of (queueName (Queue_config this')) r' (fst j') =
        Some (JSON_object (snd j') s)"
      using \<open>fst j' \<noteq> fst j\<close> by (simp add: cfg jobs')
  qed
  have IH: "worker_calls (snd (snd (jobTicks this' r'))) = map snd jobs \<and>
      map snd (emitted (snd (snd (jobTicks this' r')))) = map fst jobs \<and>
      SetImmediate \<notin> set (snd (snd (jobTicks this' r')))"
  proof (rule Cons.IH)
    show "waiting_of (queueName (Queue_config this')) r' = rev (map fst jobs)"
      by (simp add: cfg wait')
    show "distinct (map fst jobs)" "[] \<notin> set (map fst jobs)"
      using Cons.prems(2,3) by auto
    show "\<forall>j \<in> set jobs. \<exists>s. jobs_of (queueName (Queue_config this')) r' (fst j) =
        Some (JSON_object (snd j) s)"
      by (rule others)
    show "concurrency this' \<le> running this' + queued this'"
      using Cons.prems(5) by (simp add: conc sum)
  qed
  show ?case
    using IH by (simp add: jobTicks_step [OF tick])
qed

text \<open>
  Claim C4: jobs are added to an empty queue, each \<open>add\<close> returning the id of its job,
  and the queue is processed with \<open>concurrency = 1\<close> by a worker that is done within the
  tick. The worker is called on the payloads in the order in which they were added, the
  events carry the ids in that order, and no second chain of ticks is started.
\<close>

theorem fifo_dispatch:
  assumes "queue_empty (queueName (Queue_config this)) r"
    and "fst (add_all (Queue_config this) jobs r) = map (\<lambda>j. Some (fst j)) jobs"
  shows "worker_calls (snd (snd (run_process this w 1 (snd (add_all (Queue_config this) jobs r))))) =
           map snd jobs \<and>
         map snd (emitted (snd (snd (run_process this w 1
           (snd (add_all (Queue_config this) jobs r)))))) = map fst jobs \<and>
         SetImmediate \<notin> set (snd (snd (run_process this w 1
           (snd (add_all (Queue_config this) jobs r)))))"
proof -
  let ?cfg = "Queue_config this"
  let ?r' = "snd (add_all ?cfg jobs r)"
  let ?P = "process this w 1"
  note acc = add_all_accepted [OF assms(2)]
  have cfgP: "Queue_config ?P = ?cfg"
    by (simp add: process_def)
  have wait: "waiting_of (queueName (Queue_config ?P)) ?r' = rev (map fst jobs)"
    using acc assms(1) by (simp add: cfgP queue_empty_def)
  have stored: "\<forall>j \<in> set jobs. \<exists>s. jobs_of (queueName (Queue_config ?P)) ?r' (fst j) =
      Some (JSON_object (snd j) s)"
  proof
    fix j assume "j \<in> set jobs"
    then have "map_of jobs (fst j) = Some (snd j)"
      using acc by (simp add: map_of_is_SomeI)
    moreover have "jobs_of (queueName ?cfg) ?r' (fst j) =
        (case map_of jobs (fst j) of
           Some d \<Rightarrow> Some (JSON_object d created)
         | None \<Rightarrow> jobs_of (queueName ?cfg) r (fst j))"
      using acc by blast
    ultimately show "\<exists>s. jobs_of (queueName (Queue_config ?P)) ?r' (fst j) =
        Some (JSON_object (snd j) s)"
      by (simp add: cfgP)
  qed
  have "concurrency ?P \<le> running ?P + queued ?P"
    by (simp add: process_def)
  with wait stored acc show ?thesis
    unfolding run_process_def by (intro jobTicks_fifo) simp_all
qed

theorem fifo_dispatch_witness:
  "queue_empty (queueName (Queue_config queue_q)) (empty_redis :: nat Redis) \<and>
   fst (add_all (Queue_config queue_q) [(''a'', 1::nat), (''b'', 2), (''c'', 3)] empty_redis) =
     [Some ''a'', Some ''b'', Some ''c''] \<and>
   worker_calls (snd (snd (run_process queue_q returning_worker 1
     (snd (add_all (Queue_config queue_q) [(''a'', 1::nat), (''b'', 2), (''c'', 3)] empty_redis))))) =
     [1, 2, 3] \<and>
   map snd (emitted (snd (snd (run_process queue_q returning_worker 1
     (snd (add_all (Queue_config queue_q) [(''a'', 1::nat), (''b'', 2), (''c'', 3)] empty_redis)))))) =
     [''a'', ''b'', ''c'']"
proof -
  have e: "queue_empty (queueName (Queue_config queue_q)) (empty_redis :: nat Redis)"
    by (simp add: queue_empty_def empty_redis_views)
  have a: "fst (add_all (Queue_config queue_q) [(''a'', 1::nat), (''b'', 2), (''c'', 3)] empty_redis) =
      map (\<lambda>j. Some (fst j)) [(''a'', 1), (''b'', 2), (''c'', 3)]"
    by (simp add: add_views empty_redis_views)
  show ?thesis
    using e a fifo_dispatch [OF e a, of returning_worker] by (simp del: add_all_Cons)
qed

section \<open>Several clients\<close>

lemma run_clients_append:
  "run_clients cfg w (ops @ ops') = run_clients cfg (run_clients cfg w ops) ops'"
  by (simp add: run_clients_def)

lemma run_clients_Cons:
  "run_clients cfg w (op # ops) = run_clients cfg (client_step cfg w op) ops"
  by (simp add: run_clients_def)

lemma run_clients_Nil [simp]:
  "run_clients cfg w [] = w"
  by (simp add: run_clients_def)

lemma Job_new_fields [simp]:
  "id' (Job_new oc d jobId) = jobId"
  "status (Job_new oc d jobId) = created"
  "data (Job_new oc d jobId) = d"
  "config (Job_new oc d jobId) = oc"
  "queueName (owner cfg) = queueName cfg"
  by (simp_all add: Job_new_def owner_def)

lemma save_new_views:
  "save (Job_new (owner cfg) d jobId) r =
     (fst (add cfg d jobId r), Job_new (owner cfg) d jobId, snd (add cfg d jobId r))"
proof (cases "jobs_of (queueName cfg) r jobId")
  case None
  then show ?thesis
    using save_absent [of "Job_new (owner cfg) d jobId" r] by (simp add: add_def)
next
  case (Some v)
  then show ?thesis
    using save_present [of "Job_new (owner cfg) d jobId" r] by (simp add: add_def)
qed

lemma step_Save_eq:
  "client_step cfg w (Save jobId d) = w\<lparr>store := snd (add cfg d jobId (store w))\<rparr>"
  by (simp add: save_new_views)


lemma step_Dequeue_blocked:
  "waiting_of (queueName cfg) (store w) = [] \<Longrightarrow> client_step cfg w Dequeue = w"
  using getNextJob_blocked [of cfg "store w"] by simp

lemma step_Dequeue_eq:
  assumes "getNextJob cfg (store w) = Some (jobId, r1)"
  shows "client_step cfg w Dequeue =
    (case (if jobId = [] then None else jobs_of (queueName cfg) (store w) jobId) of
       None \<Rightarrow> w\<lparr>store := r1, received := received w @ [jobId]\<rparr>
     | Some v \<Rightarrow>
         w\<lparr>store := r1, received := received w @ [jobId],
           inflight := inflight w @
             [\<lparr>id' = jobId, status = json_status v, config = owner cfg, data = json_data v\<rparr>],
           handed := handed w @ [jobId]\<rparr>)"
proof -
  have "jobs_of (queueName cfg) r1 = jobs_of (queueName cfg) (store w)"
    using getNextJob_views(3) [OF assms] by (simp add: jobs_of_def)
  then show ?thesis
    using assms by (simp add: Let_def fromId_views split: option.splits)
qed

lemma step_Finish_eq:
  "client_step cfg w (Finish i hasFailed) =
     (if i < length (inflight w)
      then w\<lparr>store := fst (snd (finishJob cfg (inflight w ! i) hasFailed (store w))),
             inflight := take i (inflight w) @ drop (Suc i) (inflight w)\<rparr>
      else w)"
  by simp

lemma step_Remove_eq:
  "client_step cfg w (Remove jobId) = w\<lparr>store := removeJob cfg jobId (store w)\<rparr>"
  by simp

declare client_step.simps [simp del]

lemma step_Dequeue_views:
  assumes "waiting_of (queueName cfg) (store w) = ws @ [jobId]"
  shows "waiting_of (queueName cfg) (store (client_step cfg w Dequeue)) = ws"
    and "active_of (queueName cfg) (store (client_step cfg w Dequeue)) =
           jobId # active_of (queueName cfg) (store w)"
    and "jobs_of (queueName cfg) (store (client_step cfg w Dequeue)) =
           jobs_of (queueName cfg) (store w)"
    and "succeeded_of (queueName cfg) (store (client_step cfg w Dequeue)) =
           succeeded_of (queueName cfg) (store w)"
    and "failed_of (queueName cfg) (store (client_step cfg w Dequeue)) =
           failed_of (queueName cfg) (store w)"
    and "received (client_step cfg w Dequeue) = received w @ [jobId]"
    and "inflight (client_step cfg w Dequeue) =
           (case (if jobId = [] then None else jobs_of (queueName cfg) (store w) jobId) of
              None \<Rightarrow> inflight w
            | Some v \<Rightarrow> inflight w @ [\<lparr>id' = jobId, status = json_status v, config = owner cfg,
                                      data = json_data v\<rparr>])"
    and "handed (client_step cfg w Dequeue) =
           (case (if jobId = [] then None else jobs_of (queueName cfg) (store w) jobId) of
              None \<Rightarrow> handed w
            | Some v \<Rightarrow> handed w @ [jobId])"
proof -
  obtain r1 where g: "getNextJob cfg (store w) = Some (jobId, r1)"
    using getNextJob_Some [OF assms] by blast
  note gv = getNextJob_views [OF g]
  note eq = step_Dequeue_eq [OF g]
  have j1: "jobs_of (queueName cfg) r1 = jobs_of (queueName cfg) (store w)"
    using gv(3) by (simp add: jobs_of_def)
  have s1: "succeeded_of (queueName cfg) r1 = succeeded_of (queueName cfg) (store w)"
    "failed_of (queueName cfg) r1 = failed_of (queueName cfg) (store w)"
    using gv(4) by (simp_all add: view_defs)
  have w1: "waiting_of (queueName cfg) r1 = ws"
    using gv(1) assms by simp
  have st: "store (client_step cfg w Dequeue) = r1"
    by (simp add: eq split: option.splits)
  show "waiting_of (queueName cfg) (store (client_step cfg w Dequeue)) = ws"
    "active_of (queueName cfg) (store (client_step cfg w Dequeue)) =
           jobId # active_of (queueName cfg) (store w)"
    "jobs_of (queueName cfg) (store (client_step cfg w Dequeue)) =
           jobs_of (queueName cfg) (store w)"
    "succeeded_of (queueName cfg) (store (client_step cfg w Dequeue)) =
           succeeded_of (queueName cfg) (store w)"
    "failed_of (queueName cfg) (store (client_step cfg w Dequeue)) =
           failed_of (queueName cfg) (store w)"
    by (simp_all add: st w1 gv(2) j1 s1)
  show "received (client_step cfg w Dequeue) = received w @ [jobId]"
    by (simp add: eq split: option.splits)
  show "inflight (client_step cfg w Dequeue) =
           (case (if jobId = [] then None else jobs_of (queueName cfg) (store w) jobId) of
              None \<Rightarrow> inflight w
            | Some v \<Rightarrow> inflight w @ [\<lparr>id' = jobId, status = json_status v, config = owner cfg,
                                      data = json_data v\<rparr>])"
    by (simp add: eq split: option.splits)
  show "handed (client_step cfg w Dequeue) =
           (case (if jobId = [] then None else jobs_of (queueName cfg) (store w) jobId) of
              None \<Rightarrow> handed w
            | Some v \<Rightarrow> handed w @ [jobId])"
    by (simp add: eq split: option.splits)
qed


lemma dequeue_inv_step:
  assumes "dequeue_inv (queueName cfg) w" and "\<not> is_Save op"
  shows "dequeue_inv (queueName cfg) (client_step cfg w op)"
proof (cases op)
  case (Save jobId d)
  with assms(2) show ?thesis by simp
next
  case Dequeue
  show ?thesis
  proof (cases "waiting_of (queueName cfg) (store w)" rule: rev_cases)
    case Nil
    then show ?thesis
      using assms(1) by (simp add: Dequeue step_Dequeue_blocked)
  next
    case (snoc ws jobId)
    note v = step_Dequeue_views [OF snoc]
    from assms(1) snoc have "jobId \<notin> set (handed w)"
      by (auto simp: dequeue_inv_def)
    with assms(1) snoc show ?thesis
      by (auto simp: dequeue_inv_def Dequeue v(1,6,8)
          split: option.splits if_splits)
  qed
next
  case (Finish i hasFailed)
  then show ?thesis
    using assms(1) by (simp add: dequeue_inv_def step_Finish_eq finishJob_views)
next
  case (Remove jobId)
  then show ?thesis
    using assms(1) by (auto simp: dequeue_inv_def step_Remove_eq removeJob_views)
qed

lemmas eval_defs = run_clients_def world0_def client_step.simps save_def add_job_lua_def
  truthy_def convertToJSONString_def Job_new_def owner_def createQueueKey_def
  Queue_createQueueKey_def formatMessageQueueKey_def MQ_PREFIX_def getNextJob_def
  brpoplpush_def fromId_def fromData_def finishJob_def removeJob_def remove_job_lua_def
  redis_defs empty_redis_def view_defs config_q_def queue_q_def Queue_new_def Let_def

section \<open>Exclusion\<close>

lemma remove_nth_facts:
  assumes "i < length xs" and "distinct (map f xs)"
  shows "distinct (map f (take i xs @ drop (Suc i) xs))"
    and "f (xs ! i) \<notin> f ` set (take i xs @ drop (Suc i) xs)"
    and "set (take i xs @ drop (Suc i) xs) \<subseteq> set xs"
proof -
  have xs: "xs = take i xs @ xs ! i # drop (Suc i) xs"
    using assms(1) by (rule id_take_nth_drop)
  have "distinct (map f (take i xs @ xs ! i # drop (Suc i) xs))"
    using assms(2) xs by simp
  then show "distinct (map f (take i xs @ drop (Suc i) xs))"
    and "f (xs ! i) \<notin> f ` set (take i xs @ drop (Suc i) xs)"
    by auto
  show "set (take i xs @ drop (Suc i) xs) \<subseteq> set xs"
    using set_take_subset [of i xs] set_drop_subset [of "Suc i" xs] by auto
qed

lemma fresh_invI:
  assumes "distinct (waiting_of name (store w) @ active_of name (store w))"
    and "set (waiting_of name (store w)) \<subseteq> used" and "set (active_of name (store w)) \<subseteq> used"
    and "succeeded_of name (store w) \<subseteq> used" and "failed_of name (store w) \<subseteq> used"
    and "dom (jobs_of name (store w)) \<subseteq> used" and "id' ` set (inflight w) \<subseteq> used"
    and "distinct (map id' (inflight w))"
    and "id' ` set (inflight w) \<inter> set (waiting_of name (store w)) = {}"
    and "succeeded_of name (store w) \<inter> id' ` set (inflight w) = {}"
    and "failed_of name (store w) \<inter> id' ` set (inflight w) = {}"
    and "succeeded_of name (store w) \<inter> set (waiting_of name (store w)) = {}"
    and "failed_of name (store w) \<inter> set (waiting_of name (store w)) = {}"
    and "succeeded_of name (store w) \<inter> failed_of name (store w) = {}"
  shows "fresh_inv name used w"
  unfolding fresh_inv_def using assms by simp

lemma fresh_invD:
  assumes "fresh_inv name used w"
  shows "distinct (waiting_of name (store w) @ active_of name (store w))"
    and "set (waiting_of name (store w)) \<subseteq> used" and "set (active_of name (store w)) \<subseteq> used"
    and "succeeded_of name (store w) \<subseteq> used" and "failed_of name (store w) \<subseteq> used"
    and "dom (jobs_of name (store w)) \<subseteq> used" and "id' ` set (inflight w) \<subseteq> used"
    and "distinct (map id' (inflight w))"
    and "id' ` set (inflight w) \<inter> set (waiting_of name (store w)) = {}"
    and "succeeded_of name (store w) \<inter> id' ` set (inflight w) = {}"
    and "failed_of name (store w) \<inter> id' ` set (inflight w) = {}"
    and "succeeded_of name (store w) \<inter> set (waiting_of name (store w)) = {}"
    and "failed_of name (store w) \<inter> set (waiting_of name (store w)) = {}"
    and "succeeded_of name (store w) \<inter> failed_of name (store w) = {}"
  using assms unfolding fresh_inv_def by simp_all


lemma fresh_inv_Save:
  assumes "fresh_inv (queueName cfg) used w" and "jobId \<notin> used"
  shows "fresh_inv (queueName cfg) (insert jobId used) (client_step cfg w (Save jobId d))"
proof -
  let ?n = "queueName cfg"
  let ?w' = "client_step cfg w (Save jobId d)"
  note I = fresh_invD [OF assms(1)]
  have absent: "jobs_of ?n (store w) jobId = None"
    using I(6) assms(2) by auto
  have v: "waiting_of ?n (store ?w') = jobId # waiting_of ?n (store w)"
    "active_of ?n (store ?w') = active_of ?n (store w)"
    "succeeded_of ?n (store ?w') = succeeded_of ?n (store w)"
    "failed_of ?n (store ?w') = failed_of ?n (store w)"
    "jobs_of ?n (store ?w') = (jobs_of ?n (store w))(jobId \<mapsto> JSON_object d created)"
    "inflight ?w' = inflight w"
    by (simp_all add: step_Save_eq add_views absent)
  show ?thesis
  proof (rule fresh_invI)
    show "distinct (waiting_of ?n (store ?w') @ active_of ?n (store ?w'))"
      using I(1,2,3) assms(2) by (auto simp: v)
    show "set (waiting_of ?n (store ?w')) \<subseteq> insert jobId used"
      using I(2) by (auto simp: v)
    show "set (active_of ?n (store ?w')) \<subseteq> insert jobId used"
      using I(3) by (auto simp: v)
    show "succeeded_of ?n (store ?w') \<subseteq> insert jobId used"
      using I(4) by (auto simp: v)
    show "failed_of ?n (store ?w') \<subseteq> insert jobId used"
      using I(5) by (auto simp: v)
    show "dom (jobs_of ?n (store ?w')) \<subseteq> insert jobId used"
      using I(6) by (auto simp: v)
    show "id' ` set (inflight ?w') \<subseteq> insert jobId used"
      using I(7) by (auto simp: v)
    show "distinct (map id' (inflight ?w'))"
      using I(8) by (simp add: v)
    show "id' ` set (inflight ?w') \<inter> set (waiting_of ?n (store ?w')) = {}"
      using I(7,9) assms(2) by (auto simp: v)
    show "succeeded_of ?n (store ?w') \<inter> id' ` set (inflight ?w') = {}"
      using I(10) by (simp add: v)
    show "failed_of ?n (store ?w') \<inter> id' ` set (inflight ?w') = {}"
      using I(11) by (simp add: v)
    show "succeeded_of ?n (store ?w') \<inter> set (waiting_of ?n (store ?w')) = {}"
      using I(4,12) assms(2) by (auto simp: v)
    show "failed_of ?n (store ?w') \<inter> set (waiting_of ?n (store ?w')) = {}"
      using I(5,13) assms(2) by (auto simp: v)
    show "succeeded_of ?n (store ?w') \<inter> failed_of ?n (store ?w') = {}"
      using I(14) by (simp add: v)
  qed
qed

lemma fresh_inv_Dequeue:
  assumes "fresh_inv (queueName cfg) used w"
  shows "fresh_inv (queueName cfg) used (client_step cfg w Dequeue)"
proof (cases "waiting_of (queueName cfg) (store w)" rule: rev_cases)
  case Nil
  then show ?thesis
    using assms by (simp add: step_Dequeue_blocked)
next
  case (snoc ws jobId)
  let ?n = "queueName cfg"
  let ?w' = "client_step cfg w Dequeue"
  note I = fresh_invD [OF assms]
  note sv = step_Dequeue_views [OF snoc]
  have v: "waiting_of ?n (store ?w') = ws"
    "active_of ?n (store ?w') = jobId # active_of ?n (store w)"
    "succeeded_of ?n (store ?w') = succeeded_of ?n (store w)"
    "failed_of ?n (store ?w') = failed_of ?n (store w)"
    "jobs_of ?n (store ?w') = jobs_of ?n (store w)"
    by (simp_all add: sv)
  have w: "waiting_of ?n (store w) = ws @ [jobId]"
    by (rule snoc)
  have fl: "inflight ?w' = inflight w \<or> (\<exists>job. inflight ?w' = inflight w @ [job] \<and> id' job = jobId)"
    by (auto simp: sv(7) split: option.splits if_splits)
  have ids: "id' ` set (inflight ?w') \<subseteq> insert jobId (id' ` set (inflight w))"
    using fl by auto
  have new: "jobId \<notin> id' ` set (inflight w)" "jobId \<notin> set ws"
    "jobId \<notin> succeeded_of ?n (store w)" "jobId \<notin> failed_of ?n (store w)" "jobId \<in> used"
    using I(1,2,9,12,13) by (auto simp: w)
  show ?thesis
  proof (rule fresh_invI)
    show "distinct (waiting_of ?n (store ?w') @ active_of ?n (store ?w'))"
      using I(1) by (auto simp: v w)
    show "set (waiting_of ?n (store ?w')) \<subseteq> used"
      using I(2) by (auto simp: v w)
    show "set (active_of ?n (store ?w')) \<subseteq> used"
      using I(3) new(5) by (auto simp: v)
    show "succeeded_of ?n (store ?w') \<subseteq> used"
      using I(4) by (simp add: v)
    show "failed_of ?n (store ?w') \<subseteq> used"
      using I(5) by (simp add: v)
    show "dom (jobs_of ?n (store ?w')) \<subseteq> used"
      using I(6) by (simp add: v)
    show "id' ` set (inflight ?w') \<subseteq> used"
      using I(7) ids new(5) by blast
    show "distinct (map id' (inflight ?w'))"
      using I(8) fl new(1) by auto
    have "id' ` set (inflight w) \<inter> set ws = {}"
      using I(9) by (auto simp: w)
    then show "id' ` set (inflight ?w') \<inter> set (waiting_of ?n (store ?w')) = {}"
      using ids new(2) unfolding v by blast
    show "succeeded_of ?n (store ?w') \<inter> id' ` set (inflight ?w') = {}"
      using I(10) ids new(3) unfolding v by blast
    show "failed_of ?n (store ?w') \<inter> id' ` set (inflight ?w') = {}"
      using I(11) ids new(4) unfolding v by blast
    show "succeeded_of ?n (store ?w') \<inter> set (waiting_of ?n (store ?w')) = {}"
      using I(12) by (auto simp: v w)
    show "failed_of ?n (store ?w') \<inter> set (waiting_of ?n (store ?w')) = {}"
      using I(13) by (auto simp: v w)
    show "succeeded_of ?n (store ?w') \<inter> failed_of ?n (store ?w') = {}"
      using I(14) by (simp add: v)
  qed
qed

lemma finishJob_dom:
  "dom (jobs_of (queueName cfg) (fst (snd (finishJob cfg job hasFailed r)))) \<subseteq>
     insert (id' job) (dom (jobs_of (queueName cfg) r))"
  by (cases "if hasFailed then keepOnFailure cfg else keepOnSuccess cfg")
     (simp_all only: finishJob_views if_True if_False, auto)

lemma finishJob_sets:
  "succeeded_of (queueName cfg) (fst (snd (finishJob cfg job hasFailed r))) =
       succeeded_of (queueName cfg) r \<and>
     failed_of (queueName cfg) (fst (snd (finishJob cfg job hasFailed r))) \<subseteq>
       insert (id' job) (failed_of (queueName cfg) r) \<or>
   succeeded_of (queueName cfg) (fst (snd (finishJob cfg job hasFailed r))) =
       insert (id' job) (succeeded_of (queueName cfg) r) \<and>
     failed_of (queueName cfg) (fst (snd (finishJob cfg job hasFailed r))) =
       failed_of (queueName cfg) r"
  by (cases hasFailed; cases "keepOnSuccess cfg"; cases "keepOnFailure cfg")
     (simp_all add: finishJob_views(4,5), auto)

lemma fresh_inv_Finish:
  assumes "fresh_inv (queueName cfg) used w"
  shows "fresh_inv (queueName cfg) used (client_step cfg w (Finish i hasFailed))"
proof (cases "i < length (inflight w)")
  case False
  then show ?thesis
    using assms by (simp add: step_Finish_eq)
next
  case True
  let ?n = "queueName cfg"
  let ?w' = "client_step cfg w (Finish i hasFailed)"
  let ?job = "inflight w ! i"
  let ?rest = "take i (inflight w) @ drop (Suc i) (inflight w)"
  note I = fresh_invD [OF assms]
  note rn = remove_nth_facts [OF True I(8)]
  have st: "store ?w' = fst (snd (finishJob cfg ?job hasFailed (store w)))"
    and fl: "inflight ?w' = ?rest"
    using True by (simp_all add: step_Finish_eq)
  have mem: "id' ?job \<in> id' ` set (inflight w)"
    using True by simp
  have sub: "id' ` set ?rest \<subseteq> id' ` set (inflight w)"
    using rn(3) by blast
  have old: "id' ?job \<in> used" "id' ?job \<notin> set (waiting_of ?n (store w))"
    "id' ?job \<notin> succeeded_of ?n (store w)" "id' ?job \<notin> failed_of ?n (store w)"
    using I(7,9,10,11) mem by auto
  have vw: "waiting_of ?n (store ?w') = waiting_of ?n (store w)"
    and va: "active_of ?n (store ?w') =
      filter (\<lambda>x. x \<noteq> id' ?job) (active_of ?n (store w))"
    by (simp_all add: st finishJob_views)
  have vj: "dom (jobs_of ?n (store ?w')) \<subseteq> insert (id' ?job) (dom (jobs_of ?n (store w)))"
    unfolding st by (rule finishJob_dom)
  have vs: "succeeded_of ?n (store ?w') = succeeded_of ?n (store w) \<and>
        failed_of ?n (store ?w') \<subseteq> insert (id' ?job) (failed_of ?n (store w)) \<or>
      succeeded_of ?n (store ?w') = insert (id' ?job) (succeeded_of ?n (store w)) \<and>
        failed_of ?n (store ?w') = failed_of ?n (store w)"
    unfolding st by (rule finishJob_sets)
  define R where "R = id' ` set (inflight w)"
  define R' where "R' = id' ` set (inflight ?w')"
  define S where "S = succeeded_of ?n (store w)"
  define S' where "S' = succeeded_of ?n (store ?w')"
  define F where "F = failed_of ?n (store w)"
  define F' where "F' = failed_of ?n (store ?w')"
  define W where "W = set (waiting_of ?n (store w))"
  define j where "j = id' ?job"
  have R': "R' \<subseteq> R" "j \<notin> R'"
    unfolding R_def R'_def j_def fl by (fact sub, fact rn(2))
  have J: "j \<in> used" "j \<notin> W" "j \<notin> S" "j \<notin> F"
    unfolding j_def W_def S_def F_def by (fact old)+
  have SF: "S' = S \<and> F' \<subseteq> insert j F \<or> S' = insert j S \<and> F' = F"
    unfolding S_def S'_def F_def F'_def j_def by (fact vs)
  have Iabs: "R \<subseteq> used" "R \<inter> W = {}" "S \<inter> R = {}" "F \<inter> R = {}" "S \<inter> W = {}"
    "F \<inter> W = {}" "S \<inter> F = {}" "S \<subseteq> used" "F \<subseteq> used"
    unfolding R_def W_def S_def F_def by (fact I)+
  show ?thesis
  proof (rule fresh_invI)
    show "distinct (waiting_of ?n (store ?w') @ active_of ?n (store ?w'))"
      using I(1) by (auto simp: vw va)
    show "set (waiting_of ?n (store ?w')) \<subseteq> used"
      using I(2) by (simp add: vw)
    show "set (active_of ?n (store ?w')) \<subseteq> used"
      using I(3) by (auto simp: va)
    show "succeeded_of ?n (store ?w') \<subseteq> used"
      using Iabs SF J unfolding S'_def [symmetric] by blast
    show "failed_of ?n (store ?w') \<subseteq> used"
      using Iabs SF J unfolding F'_def [symmetric] by blast
    show "dom (jobs_of ?n (store ?w')) \<subseteq> used"
      using I(6) vj old(1) by blast
    show "id' ` set (inflight ?w') \<subseteq> used"
      using Iabs R' unfolding R'_def [symmetric] by blast
    show "distinct (map id' (inflight ?w'))"
      using rn(1) by (simp only: fl)
    show "id' ` set (inflight ?w') \<inter> set (waiting_of ?n (store ?w')) = {}"
      using Iabs R' unfolding R'_def [symmetric] vw W_def [symmetric] by blast
    show "succeeded_of ?n (store ?w') \<inter> id' ` set (inflight ?w') = {}"
      using Iabs R' SF unfolding R'_def [symmetric] S'_def [symmetric] by blast
    show "failed_of ?n (store ?w') \<inter> id' ` set (inflight ?w') = {}"
      using Iabs R' SF unfolding R'_def [symmetric] F'_def [symmetric] by blast
    show "succeeded_of ?n (store ?w') \<inter> set (waiting_of ?n (store ?w')) = {}"
      using Iabs SF J unfolding S'_def [symmetric] vw W_def [symmetric] by blast
    show "failed_of ?n (store ?w') \<inter> set (waiting_of ?n (store ?w')) = {}"
      using Iabs SF J unfolding F'_def [symmetric] vw W_def [symmetric] by blast
    show "succeeded_of ?n (store ?w') \<inter> failed_of ?n (store ?w') = {}"
      using Iabs SF J unfolding S'_def [symmetric] F'_def [symmetric] by blast
  qed
qed

lemma fresh_inv_Remove:
  assumes "fresh_inv (queueName cfg) used w"
  shows "fresh_inv (queueName cfg) used (client_step cfg w (Remove jobId))"
proof -
  let ?n = "queueName cfg"
  let ?w' = "client_step cfg w (Remove jobId)"
  note I = fresh_invD [OF assms]
  have st: "store ?w' = removeJob cfg jobId (store w)" and fl: "inflight ?w' = inflight w"
    by (simp_all add: step_Remove_eq)
  have lists: "waiting_of ?n (store ?w') = waiting_of ?n (store w) \<and>
        active_of ?n (store ?w') = active_of ?n (store w) \<or>
      waiting_of ?n (store ?w') = filter (\<lambda>x. x \<noteq> jobId) (waiting_of ?n (store w)) \<and>
        active_of ?n (store ?w') = filter (\<lambda>x. x \<noteq> jobId) (active_of ?n (store w))"
    by (simp add: st removeJob_views)
  have d: "distinct (waiting_of ?n (store ?w') @ active_of ?n (store ?w'))"
    using lists I(1) by auto
  have ws: "set (waiting_of ?n (store ?w')) \<subseteq> set (waiting_of ?n (store w))"
    and as: "set (active_of ?n (store ?w')) \<subseteq> set (active_of ?n (store w))"
    using lists by auto
  have ss: "succeeded_of ?n (store ?w') \<subseteq> succeeded_of ?n (store w)"
    and fs: "failed_of ?n (store ?w') \<subseteq> failed_of ?n (store w)"
    and js: "dom (jobs_of ?n (store ?w')) \<subseteq> dom (jobs_of ?n (store w))"
    by (auto simp: st removeJob_views)
  show ?thesis
  proof (rule fresh_invI)
    show "distinct (waiting_of ?n (store ?w') @ active_of ?n (store ?w'))"
      by (rule d)
    show "set (waiting_of ?n (store ?w')) \<subseteq> used"
      using I(2) ws by blast
    show "set (active_of ?n (store ?w')) \<subseteq> used"
      using I(3) as by blast
    show "succeeded_of ?n (store ?w') \<subseteq> used"
      using I(4) ss by blast
    show "failed_of ?n (store ?w') \<subseteq> used"
      using I(5) fs by blast
    show "dom (jobs_of ?n (store ?w')) \<subseteq> used"
      using I(6) js by blast
    show "id' ` set (inflight ?w') \<subseteq> used"
      using I(7) by (simp only: fl)
    show "distinct (map id' (inflight ?w'))"
      using I(8) by (simp only: fl)
    show "id' ` set (inflight ?w') \<inter> set (waiting_of ?n (store ?w')) = {}"
      using I(9) ws unfolding fl by blast
    show "succeeded_of ?n (store ?w') \<inter> id' ` set (inflight ?w') = {}"
      using I(10) ss unfolding fl by blast
    show "failed_of ?n (store ?w') \<inter> id' ` set (inflight ?w') = {}"
      using I(11) fs unfolding fl by blast
    show "succeeded_of ?n (store ?w') \<inter> set (waiting_of ?n (store ?w')) = {}"
      using I(12) ss ws by blast
    show "failed_of ?n (store ?w') \<inter> set (waiting_of ?n (store ?w')) = {}"
      using I(13) fs ws by blast
    show "succeeded_of ?n (store ?w') \<inter> failed_of ?n (store ?w') = {}"
      using I(14) ss fs by blast
  qed
qed

lemma fresh_inv_run:
  assumes "fresh_inv (queueName cfg) used w"
    and "distinct (saved_ids ops)"
    and "set (saved_ids ops) \<inter> used = {}"
  shows "fresh_inv (queueName cfg) (used \<union> set (saved_ids ops)) (run_clients cfg w ops)"
  using assms
proof (induction ops arbitrary: w used)
  case Nil
  then show ?case by simp
next
  case (Cons op ops)
  show ?case
  proof (cases op)
    case (Save jobId d)
    have fresh: "jobId \<notin> used" "jobId \<notin> set (saved_ids ops)" "distinct (saved_ids ops)"
      "set (saved_ids ops) \<inter> insert jobId used = {}"
      using Cons.prems(2,3) by (auto simp: Save)
    have "fresh_inv (queueName cfg) (insert jobId used) (client_step cfg w op)"
      using Cons.prems(1) fresh(1) unfolding Save by (rule fresh_inv_Save)
    from Cons.IH [OF this fresh(3,4)] show ?thesis
      by (simp add: run_clients_Cons Save)
  next
    case Dequeue
    have "fresh_inv (queueName cfg) used (client_step cfg w op)"
      using Cons.prems(1) unfolding Dequeue by (rule fresh_inv_Dequeue)
    from Cons.IH [OF this] Cons.prems(2,3) show ?thesis
      by (simp add: run_clients_Cons Dequeue)
  next
    case (Finish i hasFailed)
    have "fresh_inv (queueName cfg) used (client_step cfg w op)"
      using Cons.prems(1) unfolding Finish by (rule fresh_inv_Finish)
    from Cons.IH [OF this] Cons.prems(2,3) show ?thesis
      by (simp add: run_clients_Cons Finish)
  next
    case (Remove jobId)
    have "fresh_inv (queueName cfg) used (client_step cfg w op)"
      using Cons.prems(1) unfolding Remove by (rule fresh_inv_Remove)
    from Cons.IH [OF this] Cons.prems(2,3) show ?thesis
      by (simp add: run_clients_Cons Remove)
  qed
qed

text \<open>
  Claim C5, as stated: in every state that \<open>save\<close>, dequeue, completion bookkeeping and
  \<open>removeJob\<close> reach from an empty queue, no id is in both \<open>waiting\<close> and \<open>active\<close>, and no
  id is in both \<open>succeeded\<close> and \<open>failed\<close>. On the queue \<open>q\<close>: the job \<open>a\<close> is saved and
  dequeued; while its worker runs, \<open>a\<close> is removed and saved again; the worker returns and
  the first job is completed; the second job is dequeued, its worker raises, and it is
  completed. The id \<open>a\<close> is then in \<open>succeeded\<close> and in \<open>failed\<close>.
\<close>

theorem reused_id_succeeded_and_failed:
  "queue_empty ''q'' (empty_redis :: nat Redis) \<and>
   ''a'' \<in> succeeded_of ''q'' (store (run_clients config_q (world0 empty_redis)
      [Save ''a'' (0::nat), Dequeue, Remove ''a'', Save ''a'' 0, Finish 0 False, Dequeue,
       Finish 0 True])) \<and>
   ''a'' \<in> failed_of ''q'' (store (run_clients config_q (world0 empty_redis)
      [Save ''a'' (0::nat), Dequeue, Remove ''a'', Save ''a'' 0, Finish 0 False, Dequeue,
       Finish 0 True])) \<and>
   \<not> exclusive ''q'' (store (run_clients config_q (world0 empty_redis)
      [Save ''a'' (0::nat), Dequeue, Remove ''a'', Save ''a'' 0, Finish 0 False, Dequeue,
       Finish 0 True]))"
  by (simp add: exclusive_def queue_empty_def eval_defs)

text \<open>
  Claim C5, amended: in every state that \<open>save\<close>, dequeue, completion bookkeeping and
  \<open>removeJob\<close> reach from an empty queue while no id is saved twice (as with \<open>add\<close>, which
  draws a new id for every job), no id is in both \<open>waiting\<close> and \<open>active\<close>, and no id is in
  both \<open>succeeded\<close> and \<open>failed\<close>.
\<close>

theorem exclusive_when_ids_are_new:
  assumes "queue_empty (queueName cfg) r"
    and "distinct (saved_ids ops)"
  shows "exclusive (queueName cfg) (store (run_clients cfg (world0 r) ops))"
proof -
  have "fresh_inv (queueName cfg) {} (world0 r)"
    using assms(1) by (simp add: fresh_inv_def queue_empty_def world0_def)
  then have "fresh_inv (queueName cfg) ({} \<union> set (saved_ids ops)) (run_clients cfg (world0 r) ops)"
    using assms(2) by (rule fresh_inv_run) simp
  then have "distinct (waiting_of (queueName cfg) (store (run_clients cfg (world0 r) ops)) @
        active_of (queueName cfg) (store (run_clients cfg (world0 r) ops)))"
    and "succeeded_of (queueName cfg) (store (run_clients cfg (world0 r) ops)) \<inter>
        failed_of (queueName cfg) (store (run_clients cfg (world0 r) ops)) = {}"
    by (simp_all add: fresh_inv_def)
  then show ?thesis
    by (simp add: exclusive_def)
qed

theorem exclusive_when_ids_are_new_witness:
  "distinct (saved_ids [Save ''a'' (0::nat), Dequeue, Save ''b'' 1, Remove ''a'', Finish 0 False,
      Dequeue, Finish 0 True]) \<and>
   succeeded_of ''q'' (store (run_clients config_q (world0 empty_redis)
      [Save ''a'' (0::nat), Dequeue, Save ''b'' 1, Remove ''a'', Finish 0 False, Dequeue,
       Finish 0 True])) = {''a''} \<and>
   failed_of ''q'' (store (run_clients config_q (world0 empty_redis)
      [Save ''a'' (0::nat), Dequeue, Save ''b'' 1, Remove ''a'', Finish 0 False, Dequeue,
       Finish 0 True])) = {''b''} \<and>
   exclusive (queueName config_q) (store (run_clients config_q (world0 empty_redis)
      [Save ''a'' (0::nat), Dequeue, Save ''b'' 1, Remove ''a'', Finish 0 False, Dequeue,
       Finish 0 True]))"
proof -
  have e: "queue_empty (queueName config_q) (empty_redis :: nat Redis)"
    by (simp add: queue_empty_def empty_redis_views)
  have d: "distinct (saved_ids [Save ''a'' (0::nat), Dequeue, Save ''b'' 1, Remove ''a'',
      Finish 0 False, Dequeue, Finish 0 True])"
    by simp
  have s: "succeeded_of ''q'' (store (run_clients config_q (world0 empty_redis)
      [Save ''a'' (0::nat), Dequeue, Save ''b'' 1, Remove ''a'', Finish 0 False, Dequeue,
       Finish 0 True])) = {''a''}"
    "failed_of ''q'' (store (run_clients config_q (world0 empty_redis)
      [Save ''a'' (0::nat), Dequeue, Save ''b'' 1, Remove ''a'', Finish 0 False, Dequeue,
       Finish 0 True])) = {''b''}"
    by (simp_all add: eval_defs)
  show ?thesis
    using d s exclusive_when_ids_are_new [OF e d] by blast
qed

section \<open>At most one consumer\<close>

lemma step_lists_shrink:
  assumes "\<not> is_Save op"
  shows "set (waiting_of (queueName cfg) (store (client_step cfg w op))) \<subseteq>
           set (waiting_of (queueName cfg) (store w))"
    and "set (received (client_step cfg w op)) \<subseteq>
           set (received w) \<union> set (waiting_of (queueName cfg) (store w))"
proof -
  have "set (waiting_of (queueName cfg) (store (client_step cfg w op))) \<subseteq>
           set (waiting_of (queueName cfg) (store w)) \<and>
        set (received (client_step cfg w op)) \<subseteq>
           set (received w) \<union> set (waiting_of (queueName cfg) (store w))"
  proof (cases op)
    case (Save jobId d)
    with assms show ?thesis by simp
  next
    case Dequeue
    show ?thesis
    proof (cases "waiting_of (queueName cfg) (store w)" rule: rev_cases)
      case Nil
      then show ?thesis
        by (simp add: Dequeue step_Dequeue_blocked)
    next
      case (snoc ws jobId)
      then show ?thesis
        using step_Dequeue_views(1,6) [OF snoc] by (auto simp: Dequeue)
    qed
  next
    case (Finish i hasFailed)
    then show ?thesis
      by (simp add: step_Finish_eq finishJob_views)
  next
    case (Remove jobId)
    then show ?thesis
      by (auto simp: step_Remove_eq removeJob_views)
  qed
  then show "set (waiting_of (queueName cfg) (store (client_step cfg w op))) \<subseteq>
           set (waiting_of (queueName cfg) (store w))"
    and "set (received (client_step cfg w op)) \<subseteq>
           set (received w) \<union> set (waiting_of (queueName cfg) (store w))"
    by simp_all
qed

lemma dequeue_inv_Save:
  assumes "dequeue_inv (queueName cfg) w"
    and "set (waiting_of (queueName cfg) (store w)) \<subseteq> used"
    and "set (received w) \<subseteq> used"
    and "jobId \<notin> used"
  shows "dequeue_inv (queueName cfg) (client_step cfg w (Save jobId d))"
    and "set (waiting_of (queueName cfg) (store (client_step cfg w (Save jobId d)))) \<subseteq>
           insert jobId used"
    and "received (client_step cfg w (Save jobId d)) = received w"
proof -
  let ?w' = "client_step cfg w (Save jobId d)"
  have v: "waiting_of (queueName cfg) (store ?w') = waiting_of (queueName cfg) (store w) \<or>
      waiting_of (queueName cfg) (store ?w') = jobId # waiting_of (queueName cfg) (store w)"
    "received ?w' = received w" "handed ?w' = handed w"
    by (simp_all add: step_Save_eq add_views)
  have new: "jobId \<notin> set (waiting_of (queueName cfg) (store w))" "jobId \<notin> set (received w)"
    using assms(2,3,4) by auto
  show "dequeue_inv (queueName cfg) ?w'"
    using assms(1) v new unfolding dequeue_inv_def by auto
  show "set (waiting_of (queueName cfg) (store ?w')) \<subseteq> insert jobId used"
    using assms(2) v(1) by auto
  show "received ?w' = received w"
    by (rule v(2))
qed

text \<open>While no id is saved twice, the ids that wait and the ids that were received are all
  different, however the steps of the clients interleave.\<close>

lemma dequeue_inv_run:
  assumes "dequeue_inv (queueName cfg) w"
    and "set (waiting_of (queueName cfg) (store w)) \<subseteq> used"
    and "set (received w) \<subseteq> used"
    and "distinct (saved_ids ops)"
    and "set (saved_ids ops) \<inter> used = {}"
  shows "dequeue_inv (queueName cfg) (run_clients cfg w ops)"
  using assms
proof (induction ops arbitrary: w used)
  case Nil
  then show ?case by simp
next
  case (Cons op ops)
  show ?case
  proof (cases "is_Save op")
    case True
    then obtain jobId d where op: "op = Save jobId d"
      by (cases op) auto
    have fresh: "jobId \<notin> used" "distinct (saved_ids ops)"
      "set (saved_ids ops) \<inter> insert jobId used = {}"
      using Cons.prems(4,5) by (auto simp: op)
    note s = dequeue_inv_Save [OF Cons.prems(1,2,3) fresh(1), of d]
    have "set (received (client_step cfg w (Save jobId d))) \<subseteq> insert jobId used"
      using Cons.prems(3) s(3) by auto
    from Cons.IH [OF s(1,2) this fresh(2,3)] show ?thesis
      by (simp add: run_clients_Cons op)
  next
    case False
    have ids: "saved_ids (op # ops) = saved_ids ops"
      using False by (cases op) auto
    have i: "dequeue_inv (queueName cfg) (client_step cfg w op)"
      using Cons.prems(1) False by (rule dequeue_inv_step)
    have w: "set (waiting_of (queueName cfg) (store (client_step cfg w op))) \<subseteq> used"
      using step_lists_shrink(1) [OF False, of cfg w] Cons.prems(2) by blast
    have r: "set (received (client_step cfg w op)) \<subseteq> used"
      using step_lists_shrink(2) [OF False, of cfg w] Cons.prems(2,3) by blast
    from Cons.IH [OF i w r] Cons.prems(4,5) show ?thesis
      by (simp add: run_clients_Cons ids)
  qed
qed

lemma world0_dequeue_inv:
  "waiting_of (queueName cfg) r = [] \<Longrightarrow> dequeue_inv (queueName cfg) (world0 r)"
  by (simp add: dequeue_inv_def world0_def)

text \<open>
  Claim C6, as stated: whatever the admitted jobs and the dequeue attempts, no two dequeue
  attempts ever receive the same id, and no id is handed to a worker twice across the
  full run. On the queue \<open>q\<close>: the job \<open>a\<close> is saved and dequeued, then removed and saved
  again, and dequeued again. The id \<open>a\<close> is received twice and handed to a worker twice.
\<close>

theorem readmitted_id_received_twice:
  "queue_empty ''q'' (empty_redis :: nat Redis) \<and>
   received (run_clients config_q (world0 empty_redis)
      [Save ''a'' (0::nat), Dequeue, Remove ''a'', Save ''a'' 0, Dequeue]) = [''a'', ''a''] \<and>
   handed (run_clients config_q (world0 empty_redis)
      [Save ''a'' (0::nat), Dequeue, Remove ''a'', Save ''a'' 0, Dequeue]) = [''a'', ''a''] \<and>
   \<not> distinct (received (run_clients config_q (world0 empty_redis)
      [Save ''a'' (0::nat), Dequeue, Remove ''a'', Save ''a'' 0, Dequeue]))"
  by (simp add: queue_empty_def eval_defs)

text \<open>
  Claim C6, amended: any number of clients save, dequeue, complete and remove jobs on a
  queue that was empty, in any interleaving, and no id is saved twice (as with \<open>add\<close>,
  which draws a new id for every job). The store serves one \<^verbatim>\<open>BRPOPLPUSH\<close> at a time, so
  the run is a sequence of steps. Across the full run no two dequeue attempts receive the
  same id, and no id is handed to a worker twice.
\<close>

theorem each_id_received_once:
  assumes "queue_empty (queueName cfg) r"
    and "distinct (saved_ids ops)"
  shows "distinct (received (run_clients cfg (world0 r) ops)) \<and>
         distinct (handed (run_clients cfg (world0 r) ops))"
proof -
  have "dequeue_inv (queueName cfg) (world0 r)"
    using assms(1) by (simp add: world0_dequeue_inv queue_empty_def)
  moreover have "set (waiting_of (queueName cfg) (store (world0 r))) \<subseteq> {}"
    "set (received (world0 r)) \<subseteq> {}"
    using assms(1) by (simp_all add: queue_empty_def world0_def)
  ultimately have "dequeue_inv (queueName cfg) (run_clients cfg (world0 r) ops)"
    using assms(2) by (rule dequeue_inv_run) simp
  then show ?thesis
    by (simp add: dequeue_inv_def)
qed

theorem each_id_received_once_witness:
  "distinct (saved_ids [Save ''a'' (1::nat), Dequeue, Save ''b'' 2, Finish 0 False, Dequeue,
      Dequeue, Remove ''b'']) \<and>
   received (run_clients config_q (world0 empty_redis)
     [Save ''a'' (1::nat), Dequeue, Save ''b'' 2, Finish 0 False, Dequeue, Dequeue,
      Remove ''b'']) = [''a'', ''b''] \<and>
   distinct (received (run_clients config_q (world0 empty_redis)
     [Save ''a'' (1::nat), Dequeue, Save ''b'' 2, Finish 0 False, Dequeue, Dequeue,
      Remove ''b''])) \<and>
   distinct (handed (run_clients config_q (world0 empty_redis)
     [Save ''a'' (1::nat), Dequeue, Save ''b'' 2, Finish 0 False, Dequeue, Dequeue,
      Remove ''b'']))"
proof -
  have e: "queue_empty (queueName config_q) (empty_redis :: nat Redis)"
    by (simp add: queue_empty_def empty_redis_views)
  have d: "distinct (saved_ids [Save ''a'' (1::nat), Dequeue, Save ''b'' 2, Finish 0 False,
      Dequeue, Dequeue, Remove ''b''])"
    by simp
  have r: "received (run_clients config_q (world0 empty_redis)
     [Save ''a'' (1::nat), Dequeue, Save ''b'' 2, Finish 0 False, Dequeue, Dequeue,
      Remove ''b'']) = [''a'', ''b'']"
    by (simp add: eval_defs)
  show ?thesis
    using d r each_id_received_once [OF e d] by blast
qed

section \<open>Events\<close>

lemma distinct_count_list:
  "distinct xs \<longleftrightarrow> (\<forall>x. count_list xs x \<le> 1)"
proof (induction xs)
  case Nil
  then show ?case by simp
next
  case (Cons a xs)
  show ?case
  proof
    assume d: "distinct (a # xs)"
    then have "count_list xs a = 0"
      by simp
    moreover have "\<forall>x. count_list xs x \<le> 1"
      using d Cons.IH by simp
    ultimately show "\<forall>x. count_list (a # xs) x \<le> 1"
      by simp
  next
    assume c: "\<forall>x. count_list (a # xs) x \<le> 1"
    have "count_list xs a = 0"
      using c [rule_format, of a] by simp
    then have "a \<notin> set xs"
      by (simp add: count_list_0_iff)
    moreover have "\<forall>x. count_list xs x \<le> 1"
    proof
      fix x
      show "count_list xs x \<le> 1"
        using c [rule_format, of x] by (simp split: if_splits)
    qed
    ultimately show "distinct (a # xs)"
      using Cons.IH by simp
  qed
qed

lemma count_list_remove_nth:
  assumes "i < length xs"
  shows "count_list (map f (take i xs @ drop (Suc i) xs)) x + (if f (xs ! i) = x then 1 else 0) =
         count_list (map f xs) x"
proof -
  have "map f xs = map f (take i xs @ xs ! i # drop (Suc i) xs)"
    using id_take_nth_drop [OF assms] by simp
  then show ?thesis
    by simp
qed

lemma client_events_Finish:
  "client_events cfg w (Finish i hasFailed) =
     (if i < length (inflight w)
      then [(if hasFailed then failed else succeeded, id' (inflight w ! i))]
      else [])"
  using finishJob_result [of cfg "inflight w ! i" hasFailed "store w"]
  by (simp add: case_prod_unfold Let_def)

declare client_events.simps(1) [simp del]

text \<open>Every job that was handed to a worker is in flight or has emitted its one event.\<close>

lemma events_step:
  "count_list (map snd (client_events cfg w op)) x +
     count_list (map id' (inflight (client_step cfg w op))) x +
     count_list (handed w) x =
   count_list (map id' (inflight w)) x + count_list (handed (client_step cfg w op)) x"
proof (cases op)
  case (Save jobId d)
  then show ?thesis
    by (simp add: step_Save_eq)
next
  case Dequeue
  show ?thesis
  proof (cases "waiting_of (queueName cfg) (store w)" rule: rev_cases)
    case Nil
    then show ?thesis
      by (simp add: Dequeue step_Dequeue_blocked)
  next
    case (snoc ws jobId)
    show ?thesis
      using step_Dequeue_views(7,8) [OF snoc]
      by (simp add: Dequeue split: option.splits if_splits)
  qed
next
  case (Finish i hasFailed)
  show ?thesis
  proof (cases "i < length (inflight w)")
    case True
    then show ?thesis
      using count_list_remove_nth [OF True, of id' x]
      by (simp add: Finish client_events_Finish step_Finish_eq split: if_splits)
  next
    case False
    then show ?thesis
      by (simp add: Finish client_events_Finish step_Finish_eq)
  qed
next
  case (Remove jobId)
  then show ?thesis
    by (simp add: step_Remove_eq)
qed

lemma events_run:
  "count_list (map snd (run_events cfg w ops)) x +
     count_list (map id' (inflight (run_clients cfg w ops))) x +
     count_list (handed w) x =
   count_list (map id' (inflight w)) x + count_list (handed (run_clients cfg w ops)) x"
proof (induction ops arbitrary: w)
  case Nil
  then show ?case by simp
next
  case (Cons op ops)
  show ?case
    using Cons.IH [of "client_step cfg w op"] events_step [of cfg w op x]
    by (simp add: run_clients_Cons)
qed

lemma executeJob_views:
  assumes "worker this = Some w"
  shows "\<exists>multi. snd (executeJob this job r) =
           (exec multi r,
            [WorkerCall (data job), MultiExec multi,
             Emit (if w (data job) = Raised then failed else succeeded) (id' job)])"
    and "waiting_of (queueName (Queue_config this)) (fst (snd (executeJob this job r))) =
           waiting_of (queueName (Queue_config this)) r"
    and "active_of (queueName (Queue_config this)) (fst (snd (executeJob this job r))) =
           filter (\<lambda>x. x \<noteq> id' job) (active_of (queueName (Queue_config this)) r)"
    and "succeeded_of (queueName (Queue_config this)) (fst (snd (executeJob this job r))) =
           (if w (data job) \<noteq> Raised \<and> keepOnSuccess (Queue_config this)
            then insert (id' job) (succeeded_of (queueName (Queue_config this)) r)
            else succeeded_of (queueName (Queue_config this)) r)"
    and "failed_of (queueName (Queue_config this)) (fst (snd (executeJob this job r))) =
           (if w (data job) = Raised \<and> keepOnFailure (Queue_config this)
            then insert (id' job) (failed_of (queueName (Queue_config this)) r)
            else failed_of (queueName (Queue_config this)) r)"
    and "jobs_of (queueName (Queue_config this)) (fst (snd (executeJob this job r))) (id' job) \<noteq> None
           \<longleftrightarrow> (if w (data job) = Raised then keepOnFailure (Queue_config this)
                else keepOnSuccess (Queue_config this))"
proof -
  have cw: "call_worker this d = w d" for d
    using assms by (simp add: call_worker_def)
  obtain multi where
    "snd (finishJob (Queue_config this) job (w (data job) = Raised) r) =
     (exec multi r, [MultiExec multi])"
    using finishJob_effects by blast
  then show "\<exists>multi. snd (executeJob this job r) =
           (exec multi r,
            [WorkerCall (data job), MultiExec multi,
             Emit (if w (data job) = Raised then failed else succeeded) (id' job)])"
    by (intro exI [of _ multi]) (simp add: executeJob_eq cw)
  show "waiting_of (queueName (Queue_config this)) (fst (snd (executeJob this job r))) =
           waiting_of (queueName (Queue_config this)) r"
    "active_of (queueName (Queue_config this)) (fst (snd (executeJob this job r))) =
           filter (\<lambda>x. x \<noteq> id' job) (active_of (queueName (Queue_config this)) r)"
    "succeeded_of (queueName (Queue_config this)) (fst (snd (executeJob this job r))) =
           (if w (data job) \<noteq> Raised \<and> keepOnSuccess (Queue_config this)
            then insert (id' job) (succeeded_of (queueName (Queue_config this)) r)
            else succeeded_of (queueName (Queue_config this)) r)"
    "failed_of (queueName (Queue_config this)) (fst (snd (executeJob this job r))) =
           (if w (data job) = Raised \<and> keepOnFailure (Queue_config this)
            then insert (id' job) (failed_of (queueName (Queue_config this)) r)
            else failed_of (queueName (Queue_config this)) r)"
    "jobs_of (queueName (Queue_config this)) (fst (snd (executeJob this job r))) (id' job) \<noteq> None
           \<longleftrightarrow> (if w (data job) = Raised then keepOnFailure (Queue_config this)
                else keepOnSuccess (Queue_config this))"
    by (simp_all add: executeJob_eq cw finishJob_views)
qed

lemma events_distinct:
  assumes "queue_empty (queueName cfg) r"
    and "distinct (saved_ids ops)"
  shows "distinct (map snd (run_events cfg (world0 r) ops))"
proof -
  let ?W = "run_clients cfg (world0 r) ops"
  have "dequeue_inv (queueName cfg) (world0 r)"
    using assms(1) by (simp add: world0_dequeue_inv queue_empty_def)
  moreover have "set (waiting_of (queueName cfg) (store (world0 r))) \<subseteq> {}"
    "set (received (world0 r)) \<subseteq> {}"
    using assms(1) by (simp_all add: queue_empty_def world0_def)
  ultimately have "dequeue_inv (queueName cfg) ?W"
    using assms(2) by (rule dequeue_inv_run) simp
  then have h: "distinct (handed ?W)"
    by (simp add: dequeue_inv_def)
  have "count_list (map snd (run_events cfg (world0 r) ops)) x \<le> 1" for x
  proof -
    have "count_list (map snd (run_events cfg (world0 r) ops)) x \<le> count_list (handed ?W) x"
      using events_run [of cfg "world0 r" ops x] by (simp add: world0_def)
    moreover have "count_list (handed ?W) x \<le> 1"
      using h by (simp add: distinct_count_list)
    ultimately show ?thesis
      by simp
  qed
  then show ?thesis
    by (simp add: distinct_count_list)
qed

text \<open>
  Claim C7, as stated: a job never produces two terminal events. On the queue \<open>q\<close>: the
  job \<open>a\<close> is saved and dequeued; while its worker runs, \<open>a\<close> is removed and saved again;
  the worker returns and the first job is completed; the second job is dequeued, its
  worker raises, and it is completed. The events are \<open>succeeded\<close> with the id \<open>a\<close> and
  then \<open>failed\<close> with the id \<open>a\<close>.
\<close>

theorem readmitted_id_two_events:
  "queue_empty ''q'' (empty_redis :: nat Redis) \<and>
   run_events config_q (world0 empty_redis)
      [Save ''a'' (0::nat), Dequeue, Remove ''a'', Save ''a'' 0, Finish 0 False, Dequeue,
       Finish 0 True] = [(succeeded, ''a''), (failed, ''a'')]"
  by (simp add: queue_empty_def client_events.simps eval_defs)

text \<open>
  Claim C7, amended: an execution of a job by a queue whose worker is assigned calls the
  worker, then commits the completion transaction, then emits exactly one event, \<open>failed\<close>
  when the worker raised and \<open>succeeded\<close> when it did not, with the id of the job. The
  transaction leaves \<open>waiting\<close> as it is, removes the id from \<open>active\<close>, adds it to
  \<open>failed\<close> when the worker raised and \<open>keepOnFailure\<close> is set, adds it to \<open>succeeded\<close>
  when the worker returned and \<open>keepOnSuccess\<close> is set, and leaves the job an entry in
  \<open>jobs\<close> exactly when that flag is set. In every run of clients and for every id, the
  events that carry the id and the jobs in flight that have it are together as many as
  the times the id was handed to a worker. In every run on a queue that was empty in
  which no id is saved twice, no two events carry the same id.
\<close>

theorem executeJob_emits_once:
  "(worker this = Some w \<longrightarrow>
      (\<exists>multi. snd (executeJob this job r) =
         (exec multi r,
          [WorkerCall (data job), MultiExec multi,
           Emit (if w (data job) = Raised then failed else succeeded) (id' job)])) \<and>
      waiting_of (queueName (Queue_config this)) (fst (snd (executeJob this job r))) =
        waiting_of (queueName (Queue_config this)) r \<and>
      active_of (queueName (Queue_config this)) (fst (snd (executeJob this job r))) =
        filter (\<lambda>x. x \<noteq> id' job) (active_of (queueName (Queue_config this)) r) \<and>
      succeeded_of (queueName (Queue_config this)) (fst (snd (executeJob this job r))) =
        (if w (data job) \<noteq> Raised \<and> keepOnSuccess (Queue_config this)
         then insert (id' job) (succeeded_of (queueName (Queue_config this)) r)
         else succeeded_of (queueName (Queue_config this)) r) \<and>
      failed_of (queueName (Queue_config this)) (fst (snd (executeJob this job r))) =
        (if w (data job) = Raised \<and> keepOnFailure (Queue_config this)
         then insert (id' job) (failed_of (queueName (Queue_config this)) r)
         else failed_of (queueName (Queue_config this)) r) \<and>
      (jobs_of (queueName (Queue_config this)) (fst (snd (executeJob this job r))) (id' job) \<noteq> None
         \<longleftrightarrow> (if w (data job) = Raised then keepOnFailure (Queue_config this)
              else keepOnSuccess (Queue_config this)))) \<and>
   count_list (map snd (run_events cfg (world0 r0) ops0)) x +
     count_list (map id' (inflight (run_clients cfg (world0 r0) ops0))) x =
     count_list (handed (run_clients cfg (world0 r0) ops0)) x \<and>
   (queue_empty (queueName cfg) r1 \<and> distinct (saved_ids ops) \<longrightarrow>
      distinct (map snd (run_events cfg (world0 r1) ops)))"
proof -
  have "count_list (map snd (run_events cfg (world0 r0) ops0)) x +
     count_list (map id' (inflight (run_clients cfg (world0 r0) ops0))) x =
     count_list (handed (run_clients cfg (world0 r0) ops0)) x"
    using events_run [of cfg "world0 r0" ops0 x] by (simp add: world0_def)
  then show ?thesis
    using executeJob_views [of this w job r] events_distinct [of cfg r1 ops] by blast
qed

theorem executeJob_emits_once_witness:
  "worker (process queue_q returning_worker 1) = Some returning_worker \<and>
   emitted (snd (snd (executeJob (process queue_q returning_worker 1)
      (Job_new (owner config_q) 0 ''a'') (snd added_a)))) = [(succeeded, ''a'')] \<and>
   succeeded_of ''q'' (fst (snd (executeJob (process queue_q returning_worker 1)
      (Job_new (owner config_q) 0 ''a'') (snd added_a)))) = {''a''} \<and>
   distinct (saved_ids [Save ''a'' (0::nat), Dequeue, Save ''b'' 1, Finish 0 False, Dequeue,
      Finish 0 True]) \<and>
   run_events config_q (world0 empty_redis)
      [Save ''a'' (0::nat), Dequeue, Save ''b'' 1, Finish 0 False, Dequeue, Finish 0 True] =
      [(succeeded, ''a''), (failed, ''b'')] \<and>
   distinct (map snd (run_events config_q (world0 empty_redis)
      [Save ''a'' (0::nat), Dequeue, Save ''b'' 1, Finish 0 False, Dequeue, Finish 0 True]))"
proof -
  let ?q = "process queue_q returning_worker 1"
  let ?job = "Job_new (owner config_q) (0::nat) ''a''"
  let ?ops = "[Save ''a'' (0::nat), Dequeue, Save ''b'' 1, Finish 0 False, Dequeue, Finish 0 True]"
  have w: "worker ?q = Some returning_worker"
    by (simp add: process_def)
  have e: "queue_empty (queueName config_q) (empty_redis :: nat Redis)"
    by (simp add: queue_empty_def empty_redis_views)
  have d: "distinct (saved_ids ?ops)"
    by simp
  have ev: "run_events config_q (world0 empty_redis) ?ops = [(succeeded, ''a''), (failed, ''b'')]"
    by (simp add: client_events.simps eval_defs)
  note t = executeJob_emits_once [of ?q returning_worker ?job "snd added_a" config_q
      empty_redis ?ops "''a''" empty_redis ?ops]
  from t w obtain multi where
    m: "snd (executeJob ?q ?job (snd added_a)) =
         (exec multi (snd added_a),
          [WorkerCall (data ?job), MultiExec multi,
           Emit (if returning_worker (data ?job) = Raised then failed else succeeded) (id' ?job)])"
    and s: "succeeded_of (queueName (Queue_config ?q)) (fst (snd (executeJob ?q ?job (snd added_a)))) =
        (if returning_worker (data ?job) \<noteq> Raised \<and> keepOnSuccess (Queue_config ?q)
         then insert (id' ?job) (succeeded_of (queueName (Queue_config ?q)) (snd added_a))
         else succeeded_of (queueName (Queue_config ?q)) (snd added_a))"
    by blast
  have 1: "emitted (snd (snd (executeJob ?q ?job (snd added_a)))) = [(succeeded, ''a'')]"
    using m by (simp add: returning_worker_def)
  have 2: "succeeded_of ''q'' (fst (snd (executeJob ?q ?job (snd added_a)))) = {''a''}"
    using s by (simp add: returning_worker_def added_a_views)
  have 3: "distinct (map snd (run_events config_q (world0 empty_redis) ?ops))"
    using t e d by blast
  show ?thesis
    using w 1 2 d ev 3 by blast
qed

section \<open>The status of persisted jobs and of jobs in flight\<close>

lemma created_step:
  assumes "\<forall>i v. jobs_of (queueName cfg) (store w) i = Some v \<longrightarrow> json_status v = created"
    and "\<forall>j \<in> set (inflight w). status j = created"
  shows "(\<forall>i v. jobs_of (queueName cfg) (store (client_step cfg w op)) i = Some v \<longrightarrow>
            json_status v = created) \<and>
         (\<forall>j \<in> set (inflight (client_step cfg w op)). status j = created)"
proof (cases op)
  case (Save jobId d)
  then show ?thesis
    using assms by (simp add: step_Save_eq add_views)
next
  case Dequeue
  show ?thesis
  proof (cases "waiting_of (queueName cfg) (store w)" rule: rev_cases)
    case Nil
    then show ?thesis
      using assms by (simp add: Dequeue step_Dequeue_blocked)
  next
    case (snoc ws jobId)
    note v = step_Dequeue_views(3,7) [OF snoc]
    show ?thesis
      using assms by (auto simp: Dequeue v split: option.splits if_splits)
  qed
next
  case (Finish i hasFailed)
  show ?thesis
  proof (cases "i < length (inflight w)")
    case True
    have s: "status (inflight w ! i) = created"
      using assms(2) True by simp
    have sub: "set (take i (inflight w) @ drop (Suc i) (inflight w)) \<subseteq> set (inflight w)"
      using set_take_subset [of i "inflight w"] set_drop_subset [of "Suc i" "inflight w"]
      by auto
    show ?thesis
      using assms True s sub
      by (auto simp: Finish step_Finish_eq finishJob_views split: if_splits)
  next
    case False
    then show ?thesis
      using assms by (simp add: Finish step_Finish_eq)
  qed
next
  case (Remove jobId)
  then show ?thesis
    using assms by (simp add: step_Remove_eq removeJob_views)
qed

lemma created_run:
  assumes "\<forall>i v. jobs_of (queueName cfg) (store w) i = Some v \<longrightarrow> json_status v = created"
    and "\<forall>j \<in> set (inflight w). status j = created"
  shows "(\<forall>i v. jobs_of (queueName cfg) (store (run_clients cfg w ops)) i = Some v \<longrightarrow>
            json_status v = created) \<and>
         (\<forall>j \<in> set (inflight (run_clients cfg w ops)). status j = created)"
  using assms
proof (induction ops arbitrary: w)
  case Nil
  then show ?case by simp
next
  case (Cons op ops)
  have "(\<forall>i v. jobs_of (queueName cfg) (store (client_step cfg w op)) i = Some v \<longrightarrow>
            json_status v = created) \<and>
        (\<forall>j \<in> set (inflight (client_step cfg w op)). status j = created)"
    using Cons.prems by (rule created_step)
  then show ?case
    using Cons.IH [of "client_step cfg w op"] by (simp add: run_clients_Cons)
qed

text \<open>
  Claim C8, amended: a job is constructed with status \<open>created\<close>. \<open>save\<close> leaves the status
  of the job in memory as it is; when it admits a newly constructed job, the job is
  persisted so that a load yields status \<open>created\<close>, and its id is put at the head of
  \<open>waiting\<close>. A dequeue moves the id from the tail of \<open>waiting\<close> to the head of \<open>active\<close>
  and leaves every persisted job as it is. Completion bookkeeping sets the status of the
  job in memory to \<open>failed\<close> when the worker raised and to \<open>succeeded\<close> when it did not,
  and returns that status. In every state that clients reach on a queue that was empty,
  by saving newly constructed jobs, dequeuing, completing and removing, no persisted job
  and no job in flight has the status \<open>waiting\<close> or \<open>active\<close>: the two stages are
  membership of the two lists.
\<close>

theorem status_lifecycle:
  "status (Job_new ownerConfig d jobId) = created \<and>
   status (fst (snd (save this r))) = status this \<and>
   (jobs_of (queueName ownerConfig) r jobId = None \<longrightarrow>
      map_option status
        (fromId ownerConfig (snd (snd (save (Job_new ownerConfig d jobId) r))) jobId) =
        Some created \<and>
      waiting_of (queueName ownerConfig) (snd (snd (save (Job_new ownerConfig d jobId) r))) =
        jobId # waiting_of (queueName ownerConfig) r) \<and>
   (getNextJob cfg r0 = Some (jobId0, r1) \<longrightarrow>
      waiting_of (queueName cfg) r0 = waiting_of (queueName cfg) r1 @ [jobId0] \<and>
      active_of (queueName cfg) r1 = jobId0 # active_of (queueName cfg) r0 \<and>
      jobs_of (queueName cfg) r1 = jobs_of (queueName cfg) r0) \<and>
   fst (fst (finishJob cfg job hasFailed r2)) = (if hasFailed then failed else succeeded) \<and>
   status (snd (fst (finishJob cfg job hasFailed r2))) = (if hasFailed then failed else succeeded) \<and>
   (queue_empty (queueName cfg) r3 \<longrightarrow>
      (\<forall>i v. jobs_of (queueName cfg) (store (run_clients cfg (world0 r3) ops)) i = Some v \<longrightarrow>
         json_status v \<noteq> waiting \<and> json_status v \<noteq> active) \<and>
      (\<forall>j \<in> set (inflight (run_clients cfg (world0 r3) ops)).
         status j \<noteq> waiting \<and> status j \<noteq> active))"
proof -
  let ?new = "Job_new ownerConfig d jobId"
  have a: "status ?new = created"
    by (simp add: Job_new_def)
  have b: "status (fst (snd (save this r))) = status this"
    by (simp add: save_def case_prod_unfold Let_def)
  have c: "jobs_of (queueName ownerConfig) r jobId = None \<longrightarrow>
      map_option status (fromId ownerConfig (snd (snd (save ?new r))) jobId) = Some created \<and>
      waiting_of (queueName ownerConfig) (snd (snd (save ?new r))) =
        jobId # waiting_of (queueName ownerConfig) r"
  proof
    assume "jobs_of (queueName ownerConfig) r jobId = None"
    then have "jobs_of (queueName (config ?new)) r (id' ?new) = None"
      by simp
    note v = save_absent_views(1,2) [OF this refl refl]
    show "map_option status (fromId ownerConfig (snd (snd (save ?new r))) jobId) = Some created \<and>
      waiting_of (queueName ownerConfig) (snd (snd (save ?new r))) =
        jobId # waiting_of (queueName ownerConfig) r"
      using v by (simp add: fromId_eq)
  qed
  have d: "getNextJob cfg r0 = Some (jobId0, r1) \<longrightarrow>
      waiting_of (queueName cfg) r0 = waiting_of (queueName cfg) r1 @ [jobId0] \<and>
      active_of (queueName cfg) r1 = jobId0 # active_of (queueName cfg) r0 \<and>
      jobs_of (queueName cfg) r1 = jobs_of (queueName cfg) r0"
  proof
    assume g: "getNextJob cfg r0 = Some (jobId0, r1)"
    show "waiting_of (queueName cfg) r0 = waiting_of (queueName cfg) r1 @ [jobId0] \<and>
      active_of (queueName cfg) r1 = jobId0 # active_of (queueName cfg) r0 \<and>
      jobs_of (queueName cfg) r1 = jobs_of (queueName cfg) r0"
      using getNextJob_views [OF g] by (simp add: jobs_of_def)
  qed
  have e: "fst (fst (finishJob cfg job hasFailed r2)) = (if hasFailed then failed else succeeded)"
    "status (snd (fst (finishJob cfg job hasFailed r2))) = (if hasFailed then failed else succeeded)"
    by (simp_all add: finishJob_result)
  have f: "queue_empty (queueName cfg) r3 \<longrightarrow>
      (\<forall>i v. jobs_of (queueName cfg) (store (run_clients cfg (world0 r3) ops)) i = Some v \<longrightarrow>
         json_status v \<noteq> waiting \<and> json_status v \<noteq> active) \<and>
      (\<forall>j \<in> set (inflight (run_clients cfg (world0 r3) ops)).
         status j \<noteq> waiting \<and> status j \<noteq> active)"
  proof
    assume that: "queue_empty (queueName cfg) r3"
    have "(\<forall>i v. jobs_of (queueName cfg) (store (run_clients cfg (world0 r3) ops)) i = Some v \<longrightarrow>
            json_status v = created) \<and>
         (\<forall>j \<in> set (inflight (run_clients cfg (world0 r3) ops)). status j = created)"
      using that by (intro created_run) (simp_all add: queue_empty_def world0_def)
    then show "(\<forall>i v. jobs_of (queueName cfg) (store (run_clients cfg (world0 r3) ops)) i = Some v \<longrightarrow>
         json_status v \<noteq> waiting \<and> json_status v \<noteq> active) \<and>
      (\<forall>j \<in> set (inflight (run_clients cfg (world0 r3) ops)).
         status j \<noteq> waiting \<and> status j \<noteq> active)"
      by simp
  qed
  show ?thesis
    by (intro conjI) (fact a, fact b, fact c, fact d, fact e(1), fact e(2), fact f)
qed

theorem status_lifecycle_witness:
  "jobs_of (queueName (owner config_q)) (empty_redis :: nat Redis) ''a'' = None \<and>
   map_option status
     (fromId (owner config_q)
        (snd (snd (save (Job_new (owner config_q) (0::nat) ''a'') empty_redis))) ''a'') =
     Some created \<and>
   getNextJob config_q (snd added_a) =
     Some (''a'', snd (the (getNextJob config_q (snd added_a)))) \<and>
   waiting_of ''q'' (snd (the (getNextJob config_q (snd added_a)))) = [] \<and>
   active_of ''q'' (snd (the (getNextJob config_q (snd added_a)))) = [''a''] \<and>
   queue_empty (queueName config_q) (empty_redis :: nat Redis) \<and>
   jobs_of (queueName config_q)
     (store (run_clients config_q (world0 empty_redis) [Save ''a'' (0::nat), Save ''b'' 1, Dequeue]))
     ''b'' = Some (JSON_object 1 created) \<and>
   json_status (JSON_object (1::nat) created) \<noteq> waiting \<and>
   map id' (inflight (run_clients config_q (world0 empty_redis)
     [Save ''a'' (0::nat), Save ''b'' 1, Dequeue])) = [''a''] \<and>
   list_all (\<lambda>j. status j \<noteq> waiting \<and> status j \<noteq> active)
     (inflight (run_clients config_q (world0 empty_redis)
        [Save ''a'' (0::nat), Save ''b'' 1, Dequeue]))"
proof -
  let ?job = "Job_new (owner config_q) (0::nat) ''a''"
  let ?ops = "[Save ''a'' (0::nat), Save ''b'' 1, Dequeue]"
  let ?W = "run_clients config_q (world0 empty_redis) ?ops"
  have abs: "jobs_of (queueName (owner config_q)) (empty_redis :: nat Redis) ''a'' = None"
    by (simp add: empty_redis_views)
  obtain r1 where "getNextJob config_q (snd added_a) = Some (''a'', r1)"
    using getNextJob_Some [of config_q "snd added_a" "[]" "''a''"] by (auto simp: added_a_views)
  then have g: "getNextJob config_q (snd added_a) =
      Some (''a'', snd (the (getNextJob config_q (snd added_a))))"
    by simp
  have e: "queue_empty (queueName config_q) (empty_redis :: nat Redis)"
    by (simp add: queue_empty_def empty_redis_views)
  have p: "jobs_of (queueName config_q) (store ?W) ''b'' = Some (JSON_object 1 created)"
    "map id' (inflight ?W) = [''a'']"
    by (simp_all add: eval_defs)
  note t = status_lifecycle [of "owner config_q" "0::nat" "''a''" ?job empty_redis config_q
      "snd added_a" "''a''" "snd (the (getNextJob config_q (snd added_a)))" ?job False
      empty_redis empty_redis ?ops]
  note tc = t [THEN conjunct2, THEN conjunct2, THEN conjunct1, rule_format, OF abs]
  note td = t [THEN conjunct2, THEN conjunct2, THEN conjunct2, THEN conjunct1, rule_format, OF g]
  note tf = t [THEN conjunct2, THEN conjunct2, THEN conjunct2, THEN conjunct2, THEN conjunct2,
      THEN conjunct2, rule_format, OF e]
  have l: "list_all (\<lambda>j. status j \<noteq> waiting \<and> status j \<noteq> active) (inflight ?W)"
    using tf by (simp add: list_all_iff)
  have m: "map_option status
     (fromId (owner config_q) (snd (snd (save ?job empty_redis))) ''a'') = Some created"
    using tc by simp
  have n: "waiting_of ''q'' (snd (the (getNextJob config_q (snd added_a)))) = []"
    "active_of ''q'' (snd (the (getNextJob config_q (snd added_a)))) = [''a'']"
    using td by (simp_all add: added_a_views)
  have s: "json_status (JSON_object (1::nat) created) \<noteq> waiting"
    using tf p(1) by blast
  show ?thesis
    by (intro conjI) (fact abs, fact m, fact g, fact n(1), fact n(2), fact e, fact p(1), fact s,
        fact p(2), fact l)
qed

end
